theory Spec2Isabelle
  imports
    Main
    "HOL-Library.Char_ord"
    "HOL-Library.List_Lexorder"
    "HOL-Library.Product_Lexorder"
    "HOL-Library.Multiset"
begin

section \<open>Characters and strings of the Python runtime\<close>

text \<open>
  Strings are ASCII byte strings.  The character classes below are the ASCII part of the
  classes that Python's \<^verbatim>\<open>re\<close> module and \<^verbatim>\<open>str\<close> methods use.
\<close>

definition is_digit :: "char \<Rightarrow> bool" where
  "is_digit c = (c \<in> set ''0123456789'')"

definition is_hex :: "char \<Rightarrow> bool" where
  "is_hex c = (c \<in> set ''0123456789abcdefABCDEF'')"

definition is_lower :: "char \<Rightarrow> bool" where
  "is_lower c = (c \<in> set ''abcdefghijklmnopqrstuvwxyz'')"

definition is_upper :: "char \<Rightarrow> bool" where
  "is_upper c = (c \<in> set ''ABCDEFGHIJKLMNOPQRSTUVWXYZ'')"

text \<open>\<^verbatim>\<open>\s\<close>: tab, line feed, vertical tab, form feed, carriage return, the four
  separators 0x1C..0x1F and the space.\<close>

definition is_space :: "char \<Rightarrow> bool" where
  "is_space c = (of_char c \<in> set [9, 10, 11, 12, 13, 28, 29, 30, 31, 32 :: nat])"

definition to_lower :: "char \<Rightarrow> char" where
  "to_lower c = (if is_upper c then char_of (of_char c + (32::nat)) else c)"

definition lower :: "string \<Rightarrow> string" where
  "lower s = map to_lower s"

definition digit_val :: "char \<Rightarrow> nat" where
  "digit_val c = of_char c - 48"

text \<open>\<^verbatim>\<open>int(s)\<close> on a string of decimal digits.\<close>

definition nat_of_digits :: "string \<Rightarrow> nat" where
  "nat_of_digits s = foldl (\<lambda>a c. 10 * a + digit_val c) 0 s"

definition digit_char :: "nat \<Rightarrow> char" where
  "digit_char d = ''0123456789'' ! d"

text \<open>\<^verbatim>\<open>str(n)\<close> for a non-negative integer.\<close>

fun show_nat :: "nat \<Rightarrow> string" where
  "show_nat n = (if n < 10 then [digit_char n] else show_nat (n div 10) @ [digit_char (n mod 10)])"

declare show_nat.simps [simp del]

text \<open>\<^verbatim>\<open>sep.join(parts)\<close>.\<close>

fun join :: "string \<Rightarrow> string list \<Rightarrow> string" where
  "join sep [] = []"
| "join sep [p] = p"
| "join sep (p # q # ps) = p @ sep @ join sep (q # ps)"

text \<open>Splitting at every character of a separator class, as \<^verbatim>\<open>re.split\<close> with a
  one-character class and \<^verbatim>\<open>str.split(sep)\<close> do: \<open>n\<close> separators give \<open>n + 1\<close> parts.\<close>

fun split_on :: "(char \<Rightarrow> bool) \<Rightarrow> string \<Rightarrow> string list" where
  "split_on sep [] = [[]]"
| "split_on sep (c # cs) =
     (if sep c then [] # split_on sep cs
      else (case split_on sep cs of [] \<Rightarrow> [[c]] | p # ps \<Rightarrow> (c # p) # ps))"

text \<open>\<^verbatim>\<open>s.strip("v")\<close>: every leading and every trailing \<open>v\<close> goes.\<close>

definition strip_v :: "string \<Rightarrow> string" where
  "strip_v s = rev (dropWhile (\<lambda>c. c = CHR ''v'') (rev (dropWhile (\<lambda>c. c = CHR ''v'') s)))"

text \<open>\<^verbatim>\<open>needle in haystack\<close> on strings.\<close>

fun is_substring :: "string \<Rightarrow> string \<Rightarrow> bool" where
  "is_substring needle [] = (needle = [])"
| "is_substring needle (c # cs) =
     (take (length needle) (c # cs) = needle \<or> is_substring needle cs)"

section \<open>The version library: \<^verbatim>\<open>packaging.version\<close>\<close>

text \<open>
  The program imports \<^verbatim>\<open>packaging.version\<close> and uses \<^verbatim>\<open>version.parse\<close>,
  \<^verbatim>\<open>LegacyVersion\<close>, \<^verbatim>\<open>base_version\<close> and the comparison of \<^verbatim>\<open>Version\<close> objects.
  This section models that library (the PEP 440 implementation): the fields of a version,
  its regular expression, and its comparison key.
\<close>

datatype local_part = LNum nat | LStr string

record version =
  v_epoch :: nat
  v_release :: "nat list"
  v_pre :: "(string \<times> nat) option"
  v_post :: "(string \<times> nat) option"
  v_dev :: "(string \<times> nat) option"
  v_local :: "local_part list option"

datatype parsed = Version version | LegacyVersion string

subsection \<open>The regular expression, as a backtracking matcher\<close>

text \<open>
  Each piece of the pattern maps the rest of the input to the list of its possible
  matches (value and remaining input) in the order in which the backtracking engine
  tries them: a greedy repetition offers its longest match first, an alternation its
  branches from left to right, an optional group the match before the omission.  The
  match of the whole pattern is the first combination that reaches the end of the input.
\<close>

type_synonym 'a matcher = "string \<Rightarrow> ('a \<times> string) list"

text \<open>The prefixes of the input that satisfy \<open>ok\<close>, longest first.\<close>

definition prefixes_where :: "(string \<Rightarrow> bool) \<Rightarrow> string matcher" where
  "prefixes_where ok s =
     [(take n s, drop n s). n \<leftarrow> rev [1 ..< Suc (length s)], ok (take n s)]"

text \<open>\<^verbatim>\<open>[0-9]+\<close>\<close>

definition all_digits1 :: "string \<Rightarrow> bool" where
  "all_digits1 t = (t \<noteq> [] \<and> list_all is_digit t)"

definition m_digits :: "nat matcher" where
  "m_digits s = [(nat_of_digits t, r). (t, r) \<leftarrow> prefixes_where all_digits1 s]"

text \<open>A literal.\<close>

definition m_lit :: "string \<Rightarrow> string matcher" where
  "m_lit l s = (if take (length l) s = l then [(l, drop (length l) s)] else [])"

text \<open>\<^verbatim>\<open>(...)?\<close>, greedy.\<close>

definition m_opt :: "'a matcher \<Rightarrow> 'a option matcher" where
  "m_opt m s = [(Some a, r). (a, r) \<leftarrow> m s] @ [(None, s)]"

text \<open>\<^verbatim>\<open>[-_\.]?\<close>\<close>

definition is_sep :: "char \<Rightarrow> bool" where
  "is_sep c = (c \<in> set ''-_.'')"

definition m_sep :: "unit matcher" where
  "m_sep s = (case s of c # r \<Rightarrow> (if is_sep c then [((), r)] else []) | [] \<Rightarrow> []) @ [((), s)]"

text \<open>An alternation of literals, left to right.\<close>

definition m_alts :: "string list \<Rightarrow> string matcher" where
  "m_alts ls s = concat (map (\<lambda>l. m_lit l s) ls)"

text \<open>\<^verbatim>\<open>(?:(?P<epoch>[0-9]+)!)?\<close>\<close>

definition m_epoch :: "nat option matcher" where
  "m_epoch = m_opt (\<lambda>s. [(e, r'). (e, r) \<leftarrow> m_digits s, (_, r') \<leftarrow> m_lit ''!'' r])"

text \<open>\<^verbatim>\<open>(?P<release>[0-9]+(?:\.[0-9]+)*)\<close>, then
  \<^verbatim>\<open>tuple(int(i) for i in match.group("release").split("."))\<close>.\<close>

definition is_release :: "string \<Rightarrow> bool" where
  "is_release t = list_all all_digits1 (split_on (\<lambda>c. c = CHR ''.'') t)"

definition m_release :: "nat list matcher" where
  "m_release s =
     [(map nat_of_digits (split_on (\<lambda>c. c = CHR ''.'') t), r). (t, r) \<leftarrow> prefixes_where is_release s]"

text \<open>A letter group: \<^verbatim>\<open>[-_\.]? (letters) [-_\.]? ([0-9]+)?\<close>.\<close>

definition m_letter :: "string list \<Rightarrow> (string \<times> nat option) matcher" where
  "m_letter ls s =
     [((l, n), r3). (_, r0) \<leftarrow> m_sep s, (l, r1) \<leftarrow> m_alts ls r0, (_, r2) \<leftarrow> m_sep r1,
                    (n, r3) \<leftarrow> m_opt m_digits r2]"

definition m_pre :: "(string \<times> nat option) option matcher" where
  "m_pre = m_opt (m_letter [''a'', ''b'', ''c'', ''rc'', ''alpha'', ''beta'', ''pre'', ''preview''])"

text \<open>The post-release: \<^verbatim>\<open>-N\<close> (no letter), or a letter group.  The value is the pair
  of the groups \<^verbatim>\<open>post_l\<close> and \<^verbatim>\<open>post_n1 or post_n2\<close>.\<close>

definition m_post :: "(string option \<times> nat option) option matcher" where
  "m_post = m_opt (\<lambda>s.
     [((None, Some n), r'). (_, r) \<leftarrow> m_lit ''-'' s, (n, r') \<leftarrow> m_digits r] @
     [((Some l, n), r). ((l, n), r) \<leftarrow> m_letter [''post'', ''rev'', ''r''] s])"

definition m_dev :: "(string \<times> nat option) option matcher" where
  "m_dev = m_opt (m_letter [''dev''])"

text \<open>\<^verbatim>\<open>(?:\+(?P<local>[a-z0-9]+(?:[-_\.][a-z0-9]+)*))?\<close>\<close>

definition is_alnum1 :: "string \<Rightarrow> bool" where
  "is_alnum1 t = (t \<noteq> [] \<and> list_all (\<lambda>c. is_lower c \<or> is_digit c) t)"

definition is_local :: "string \<Rightarrow> bool" where
  "is_local t = list_all is_alnum1 (split_on is_sep t)"

definition m_local :: "string option matcher" where
  "m_local = m_opt (\<lambda>s. [(t, r'). (_, r) \<leftarrow> m_lit ''+'' s, (t, r') \<leftarrow> prefixes_where is_local r])"

text \<open>\<^verbatim>\<open>_parse_letter_version(letter, number)\<close>\<close>

definition parse_letter_version :: "string option \<Rightarrow> nat option \<Rightarrow> (string \<times> nat) option" where
  "parse_letter_version letter number =
     (case letter of
        Some l \<Rightarrow>
          Some (if l = ''alpha'' then ''a''
                else if l = ''beta'' then ''b''
                else if l \<in> set [''c'', ''pre'', ''preview''] then ''rc''
                else if l \<in> set [''rev'', ''r''] then ''post''
                else l,
                case number of None \<Rightarrow> 0 | Some n \<Rightarrow> n)
      | None \<Rightarrow> (case number of Some n \<Rightarrow> Some (''post'', n) | None \<Rightarrow> None))"

text \<open>\<^verbatim>\<open>_parse_local_version(local)\<close>\<close>

definition parse_local_version :: "string option \<Rightarrow> local_part list option" where
  "parse_local_version l =
     map_option (\<lambda>t. map (\<lambda>p. if list_all is_digit p \<and> p \<noteq> [] then LNum (nat_of_digits p) else LStr (lower p))
                          (split_on is_sep t)) l"

text \<open>The groups after the release, up to the end of the input: pre, post, dev, local,
  then \<^verbatim>\<open>\s*$\<close>.\<close>

type_synonym qualifiers =
  "(string \<times> nat option) option \<times> (string option \<times> nat option) option \<times>
   (string \<times> nat option) option \<times> string option"

definition m_qualifiers :: "string \<Rightarrow> qualifiers list" where
  "m_qualifiers s =
     [(pr, po, de, lo).
      (pr, r3) \<leftarrow> m_pre s,
      (po, r4) \<leftarrow> m_post r3,
      (de, r5) \<leftarrow> m_dev r4,
      (lo, r6) \<leftarrow> m_local r5,
      list_all is_space r6]"

text \<open>The constructor of \<^verbatim>\<open>Version\<close>, from the groups of the match.\<close>

definition mk_version :: "nat option \<Rightarrow> nat list \<Rightarrow> qualifiers \<Rightarrow> version" where
  "mk_version e rel q =
     (case q of (pr, po, de, lo) \<Rightarrow>
      \<lparr> v_epoch = (case e of None \<Rightarrow> 0 | Some n \<Rightarrow> n),
        v_release = rel,
        v_pre = (case pr of None \<Rightarrow> None | Some (l, n) \<Rightarrow> parse_letter_version (Some l) n),
        v_post = (case po of None \<Rightarrow> None | Some (l, n) \<Rightarrow> parse_letter_version l n),
        v_dev = (case de of None \<Rightarrow> None | Some (l, n) \<Rightarrow> parse_letter_version (Some l) n),
        v_local = parse_local_version lo \<rparr>)"

text \<open>
  The whole pattern \<^verbatim>\<open>^\s*v?...\s*$\<close> under \<^verbatim>\<open>re.IGNORECASE\<close>: the letters of the
  pattern match either case, which on ASCII input is matching the lower-cased input.
\<close>

definition version_matches :: "string \<Rightarrow> version list" where
  "version_matches s =
     [mk_version e rel q.
      (_, r0) \<leftarrow> m_opt (m_lit ''v'') (dropWhile is_space (lower s)),
      (e, r1) \<leftarrow> m_epoch r0,
      (rel, r2) \<leftarrow> m_release r1,
      q \<leftarrow> m_qualifiers r2]"

text \<open>\<^verbatim>\<open>version.parse(s)\<close>: a \<^verbatim>\<open>Version\<close> when the pattern matches, a
  \<^verbatim>\<open>LegacyVersion\<close> otherwise.\<close>

definition version_parse :: "string \<Rightarrow> parsed" where
  "version_parse s = (case version_matches s of v # _ \<Rightarrow> Version v | [] \<Rightarrow> LegacyVersion s)"

text \<open>\<^verbatim>\<open>Version.base_version\<close>: the epoch (when not 0) and the release segments.\<close>

definition release_str :: "nat list \<Rightarrow> string" where
  "release_str rel = join ''.'' (map show_nat rel)"

definition base_version :: "version \<Rightarrow> string" where
  "base_version v =
     (if v_epoch v \<noteq> 0 then show_nat (v_epoch v) @ ''!'' else []) @ release_str (v_release v)"

subsection \<open>The comparison key\<close>

text \<open>
  \<^verbatim>\<open>_cmpkey\<close>: versions compare by the tuple (epoch, release without trailing zeros, pre,
  post, dev, local), where an absent part is replaced by an infinity.  Tuples and strings
  compare lexicographically.  The infinities are encoded by a leading tag: 0 is the
  negative infinity, 1 a value, 2 the positive infinity.
\<close>

type_synonym letter_key = "nat \<times> string \<times> nat"
type_synonym cmpkey_t = "nat \<times> nat list \<times> letter_key \<times> letter_key \<times> letter_key \<times> nat \<times> (nat \<times> nat \<times> string) list"

definition strip_trailing_zeros :: "nat list \<Rightarrow> nat list" where
  "strip_trailing_zeros r = rev (dropWhile (\<lambda>x. x = 0) (rev r))"

definition neg_inf :: letter_key where "neg_inf = (0, [], 0)"
definition pos_inf :: letter_key where "pos_inf = (2, [], 0)"

definition key_val :: "string \<times> nat \<Rightarrow> letter_key" where
  "key_val p = (1, fst p, snd p)"

definition local_key :: "local_part \<Rightarrow> nat \<times> nat \<times> string" where
  "local_key p = (case p of LNum i \<Rightarrow> (1, i, []) | LStr s \<Rightarrow> (0, 0, s))"

definition cmpkey :: "version \<Rightarrow> cmpkey_t" where
  "cmpkey v =
     (v_epoch v,
      strip_trailing_zeros (v_release v),
      (case v_pre v of
         None \<Rightarrow> (if v_post v = None \<and> v_dev v \<noteq> None then neg_inf else pos_inf)
       | Some p \<Rightarrow> key_val p),
      (case v_post v of None \<Rightarrow> neg_inf | Some p \<Rightarrow> key_val p),
      (case v_dev v of None \<Rightarrow> pos_inf | Some p \<Rightarrow> key_val p),
      (case v_local v of None \<Rightarrow> (0, []) | Some l \<Rightarrow> (1, map local_key l)))"

text \<open>\<^verbatim>\<open>a < b\<close> and \<^verbatim>\<open>a > b\<close> on versions.\<close>

definition ver_lt :: "version \<Rightarrow> version \<Rightarrow> bool" where
  "ver_lt a b = (cmpkey a < cmpkey b)"

definition ver_gt :: "version \<Rightarrow> version \<Rightarrow> bool" where
  "ver_gt a b = (cmpkey b < cmpkey a)"

text \<open>\<^verbatim>\<open>a >= b\<close>\<close>

definition ver_ge :: "version \<Rightarrow> version \<Rightarrow> bool" where
  "ver_ge a b = (cmpkey b \<le> cmpkey a)"

text \<open>The version with the given release segments and nothing else, as \<^verbatim>\<open>1.2.0\<close>.\<close>

definition release_only :: "nat list \<Rightarrow> version" where
  "release_only rel =
     \<lparr> v_epoch = 0, v_release = rel, v_pre = None, v_post = None, v_dev = None, v_local = None \<rparr>"

section \<open>The version parser: \<^verbatim>\<open>try_parse_versions\<close>\<close>

text \<open>
  \<^verbatim>\<open>ver = version.parse(ver.base_version)\<close>.  The base version of a parsed version
  always parses again (lemma \<open>normalise_parsed\<close> below), so the second branch is never taken.
\<close>

definition normalise :: "version \<Rightarrow> version" where
  "normalise v = (case version_parse (base_version v) of Version b \<Rightarrow> b | LegacyVersion _ \<Rightarrow> v)"

text \<open>The loop over \<^verbatim>\<open>versions\<close>, with the accumulator \<^verbatim>\<open>res\<close>.\<close>

fun parse_loop :: "string list \<Rightarrow> version list \<Rightarrow> version list" where
  "parse_loop [] res = res"
| "parse_loop (ver # versions) res =
     (case version_parse (strip_v ver) of
        LegacyVersion _ \<Rightarrow> parse_loop versions res
      | Version v \<Rightarrow> parse_loop versions (res @ [normalise v]))"

text \<open>\<^verbatim>\<open>sorted(res)\<close> is a stable sort by the comparison key.\<close>

definition try_parse_versions :: "string list \<Rightarrow> version list" where
  "try_parse_versions versions = sort_key cmpkey (parse_loop versions [])"

text \<open>The records that the specification of the parser speaks of: the raw strings that
  parse, normalised, in the order of the input.\<close>

definition parsed_normalised :: "string list \<Rightarrow> version list" where
  "parsed_normalised versions =
     concat (map (\<lambda>s. case version_parse (strip_v s) of
                         Version v \<Rightarrow> [normalise v]
                       | LegacyVersion _ \<Rightarrow> []) versions)"


section \<open>Dictionaries\<close>

text \<open>
  A Python \<^verbatim>\<open>dict\<close> keeps its keys in insertion order, and several functions of the
  program depend on that order, so a dictionary is the list of its items.  \<open>map_of\<close> is
  the lookup, \<open>dict_set\<close> the assignment \<^verbatim>\<open>d[k] = v\<close>: an existing key keeps its place,
  a new key goes to the end.
\<close>

type_synonym ('k, 'v) dict = "('k \<times> 'v) list"

fun dict_set :: "'k \<Rightarrow> 'v \<Rightarrow> ('k, 'v) dict \<Rightarrow> ('k, 'v) dict" where
  "dict_set k v [] = [(k, v)]"
| "dict_set k v ((k', v') # d) = (if k' = k then (k, v) # d else (k', v') # dict_set k v d)"

definition keys :: "('k, 'v) dict \<Rightarrow> 'k list" where
  "keys d = map fst d"

text \<open>\<^verbatim>\<open>dict(items)\<close>\<close>

definition dict_of :: "('k \<times> 'v) list \<Rightarrow> ('k, 'v) dict" where
  "dict_of items = fold (\<lambda>(k, v) d. dict_set k v d) items []"

type_synonym vermap = "(string, version) dict"

text \<open>A package entry of the catalog is a table of strings; the catalog maps package
  names to entries.\<close>

type_synonym pkg = "(string, string) dict"
type_synonym catalog = "(string, pkg) dict"

section \<open>Merging: \<^verbatim>\<open>update\<close>\<close>

fun update_loop :: "vermap \<Rightarrow> (string \<times> version) list \<Rightarrow> vermap" where
  "update_loop res [] = res"
| "update_loop res ((k, v) # new) =
     (case map_of res k of
        None \<Rightarrow> update_loop (dict_set k v res) new
      | Some ov \<Rightarrow> (if ver_gt v ov then update_loop (dict_set k v res) new else update_loop res new))"

definition update :: "vermap \<Rightarrow> vermap \<Rightarrow> vermap" where
  "update old new = update_loop old new"

section \<open>Values, errors, responses\<close>

datatype py_error =
    ValueError
  | KeyError string
  | TypeError
  | AttributeError
  | IndexError
  | UnboundLocalError
  | ClientError
  | JSONDecodeError

text \<open>A decoded JSON document.  An object is the dictionary the decoder built.\<close>

datatype json =
    JNull
  | JBool bool
  | JNum int
  | JStr string
  | JArr "json list"
  | JObj "(string \<times> json) list"

text \<open>\<^verbatim>\<open>if j:\<close>\<close>

fun truthy :: "json \<Rightarrow> bool" where
  "truthy JNull = False"
| "truthy (JBool b) = b"
| "truthy (JNum n) = (n \<noteq> 0)"
| "truthy (JStr s) = (s \<noteq> [])"
| "truthy (JArr xs) = (xs \<noteq> [])"
| "truthy (JObj m) = (m \<noteq> [])"

text \<open>\<^verbatim>\<open>for x in j\<close>: a list gives its elements, a dictionary its keys, a string its
  characters; anything else is not iterable.\<close>

fun json_iter :: "json \<Rightarrow> py_error + json list" where
  "json_iter (JArr xs) = Inr xs"
| "json_iter (JObj m) = Inr (map (\<lambda>(k, _). JStr k) m)"
| "json_iter (JStr s) = Inr (map (\<lambda>c. JStr [c]) s)"
| "json_iter _ = Inl TypeError"

text \<open>\<^verbatim>\<open>field in x\<close>\<close>

fun field_in :: "string \<Rightarrow> json \<Rightarrow> py_error + bool" where
  "field_in f (JObj m) = Inr (f \<in> set (keys m))"
| "field_in f (JStr s) = Inr (is_substring f s)"
| "field_in f (JArr xs) = Inr (JStr f \<in> set xs)"
| "field_in f _ = Inl TypeError"

text \<open>\<^verbatim>\<open>x[field]\<close> with a string index.\<close>

fun subscript :: "json \<Rightarrow> string \<Rightarrow> py_error + json" where
  "subscript (JObj m) f = (case map_of m f of Some v \<Rightarrow> Inr v | None \<Rightarrow> Inl (KeyError f))"
| "subscript _ f = Inl TypeError"

text \<open>\<^verbatim>\<open>j[0]\<close>\<close>

fun first_item :: "json \<Rightarrow> py_error + json" where
  "first_item (JArr xs) = (case xs of x # _ \<Rightarrow> Inr x | [] \<Rightarrow> Inl IndexError)"
| "first_item (JStr s) = (case s of c # _ \<Rightarrow> Inr (JStr [c]) | [] \<Rightarrow> Inl IndexError)"
| "first_item (JObj m) = Inl (KeyError ''0'')"
| "first_item _ = Inl TypeError"

text \<open>\<^verbatim>\<open>[x[field] for x in j if field in x]\<close>, over the elements of \<^verbatim>\<open>j\<close>.\<close>

fun pick_field :: "string \<Rightarrow> json list \<Rightarrow> py_error + json list" where
  "pick_field f [] = Inr []"
| "pick_field f (x # xs) =
     (case field_in f x of
        Inl e \<Rightarrow> Inl e
      | Inr False \<Rightarrow> pick_field f xs
      | Inr True \<Rightarrow>
          (case subscript x f of
             Inl e \<Rightarrow> Inl e
           | Inr v \<Rightarrow> (case pick_field f xs of Inl e \<Rightarrow> Inl e | Inr vs \<Rightarrow> Inr (v # vs))))"

text \<open>
  \<^verbatim>\<open>try_parse_versions\<close> on values taken from a response: \<^verbatim>\<open>ver.strip("v")\<close> exists
  on strings only, so the first value that is not a string raises \<^verbatim>\<open>AttributeError\<close>.
\<close>

fun raw_strings :: "json list \<Rightarrow> py_error + string list" where
  "raw_strings [] = Inr []"
| "raw_strings (JStr s # xs) = (case raw_strings xs of Inl e \<Rightarrow> Inl e | Inr ss \<Rightarrow> Inr (s # ss))"
| "raw_strings (_ # xs) = Inl AttributeError"

definition try_parse_values :: "json list \<Rightarrow> py_error + version list" where
  "try_parse_values xs =
     (case raw_strings xs of Inl e \<Rightarrow> Inl e | Inr ss \<Rightarrow> Inr (try_parse_versions ss))"

text \<open>An option value: what \<^verbatim>\<open>click\<close> passes and what the options table of the
  configuration document holds.\<close>

datatype pyval = PNone | PBool bool | PStr string | PInt int

fun pyval_truthy :: "pyval \<Rightarrow> bool" where
  "pyval_truthy PNone = False"
| "pyval_truthy (PBool b) = b"
| "pyval_truthy (PStr s) = (s \<noteq> [])"
| "pyval_truthy (PInt n) = (n \<noteq> 0)"

text \<open>\<^verbatim>\<open>str(x)\<close>, as an f-string formats it.\<close>

fun pyval_str :: "pyval \<Rightarrow> string" where
  "pyval_str PNone = ''None''"
| "pyval_str (PBool b) = (if b then ''True'' else ''False'')"
| "pyval_str (PStr s) = s"
| "pyval_str (PInt n) = (if n < 0 then ''-'' @ show_nat (nat (- n)) else show_nat (nat n))"

text \<open>The options after \<^verbatim>\<open>read_config\<close>: the keyword arguments of \<^verbatim>\<open>cli\<close>, whose
  names the \<^verbatim>\<open>click\<close> decorators fix.\<close>

record args =
  arg_github_token :: pyval
  arg_gitlab_token :: pyval
  arg_primary :: pyval
  arg_secondary :: pyval
  arg_trust_primary :: pyval
  arg_trust_secondary :: pyval
  arg_print_names :: pyval
  arg_quiet :: pyval

section \<open>The network\<close>

text \<open>
  A response carries what \<^verbatim>\<open>await r.json()\<close> gives: a document, or the error it
  raises.  The world answers a request (URL and headers) with a
  response or a transport error, and fixes the order in which \<^verbatim>\<open>asyncio.wait\<close> hands
  the finished tasks back: \<^verbatim>\<open>done\<close> is a set, and the rank of a task's package name
  decides its place in the iteration.  Package names are distinct, so every order is the
  order of some rank.
\<close>

record response =
  resp_json :: "py_error + json"

type_synonym headers = "(string \<times> string) list"

record world =
  http_get :: "string \<Rightarrow> headers \<Rightarrow> py_error + response"
  done_rank :: "string \<Rightarrow> nat"

text \<open>A finished task of \<^verbatim>\<open>fetch(name, url, headers)\<close>: the name, and the response or
  the exception that \<^verbatim>\<open>t.result()\<close> raises.\<close>

type_synonym task = "string \<times> (py_error + response)"

definition fetch :: "world \<Rightarrow> string \<Rightarrow> string \<Rightarrow> headers \<Rightarrow> task" where
  "fetch w name url hdrs = (name, http_get w url hdrs)"

text \<open>\<^verbatim>\<open>done, _ = await asyncio.wait(aws)\<close>: an empty \<^verbatim>\<open>aws\<close> raises
  \<^verbatim>\<open>ValueError\<close>.\<close>

definition wait :: "world \<Rightarrow> task list \<Rightarrow> py_error + task list" where
  "wait w aws = (if aws = [] then Inl ValueError else Inr (sort_key (\<lambda>t. done_rank w (fst t)) aws))"

definition github_base :: string where "github_base = ''https://api.github.com/repos''"
definition gitlab_base :: string where "gitlab_base = ''https://gitlab.com''"
definition arch_base :: string where "arch_base = ''https://www.archlinux.org/packages/search/json''"
definition aur_base :: string where "aur_base = ''https://aur.archlinux.org/rpc''"

text \<open>An adapter: options and eligible packages in, a mapping or an exception out.  The world
  is threaded so that the orchestrator below does not depend on the adapters being
  repeatable.\<close>

type_synonym 'w source = "args \<Rightarrow> catalog \<Rightarrow> 'w \<Rightarrow> (py_error + vermap) \<times> 'w"


section \<open>The source adapters\<close>

subsection \<open>\<^verbatim>\<open>agithub\<close> and \<^verbatim>\<open>agitlab\<close>\<close>

text \<open>The loop over \<^verbatim>\<open>done\<close>, which the two functions share line by line.\<close>

fun releases_loop :: "string \<Rightarrow> task list \<Rightarrow> vermap \<Rightarrow> py_error + vermap" where
  "releases_loop field [] res = Inr res"
| "releases_loop field ((name, r) # done) res =
     (case r of
        Inl e \<Rightarrow> Inl e
      | Inr resp \<Rightarrow>
          (case resp_json resp of
             Inl e \<Rightarrow> Inl e
           | Inr j \<Rightarrow>
               if truthy j then
                 (case json_iter j of
                    Inl e \<Rightarrow> Inl e
                  | Inr xs \<Rightarrow>
                      (case pick_field field xs of
                         Inl e \<Rightarrow> Inl e
                       | Inr raw \<Rightarrow>
                           (case try_parse_values raw of
                              Inl e \<Rightarrow> Inl e
                            | Inr vers \<Rightarrow>
                                if vers \<noteq> [] then releases_loop field done (dict_set name (last vers) res)
                                else releases_loop field done res)))
               else releases_loop field done res))"

definition agithub_aws :: "world \<Rightarrow> args \<Rightarrow> catalog \<Rightarrow> string \<Rightarrow> task list" where
  "agithub_aws w args pkgs type =
     concat (map (\<lambda>(name, pkg).
       case map_of pkg ''github'' of
         None \<Rightarrow> []
       | Some ident \<Rightarrow>
           if ident \<noteq> [] then
             [fetch w name (github_base @ ''/'' @ ident @ ''/'' @ type)
                (if pyval_truthy (arg_github_token args)
                 then [(''Authorization'', ''token '' @ pyval_str (arg_github_token args))]
                 else [])]
           else []) pkgs)"

definition agithub :: "args \<Rightarrow> catalog \<Rightarrow> string \<Rightarrow> string \<Rightarrow> world \<Rightarrow> py_error + vermap" where
  "agithub args pkgs type field w =
     (case wait w (agithub_aws w args pkgs type) of
        Inl e \<Rightarrow> Inl e
      | Inr done \<Rightarrow> releases_loop field done [])"

text \<open>\<^verbatim>\<open>id_.replace("/", "%2F")\<close>\<close>

definition quote_slashes :: "string \<Rightarrow> string" where
  "quote_slashes s = concat (map (\<lambda>c. if c = CHR ''/'' then ''%2F'' else [c]) s)"

definition agitlab_aws :: "world \<Rightarrow> args \<Rightarrow> catalog \<Rightarrow> string \<Rightarrow> task list" where
  "agitlab_aws w args pkgs type =
     concat (map (\<lambda>(name, pkg).
       case map_of pkg ''gitlab'' of
         None \<Rightarrow> []
       | Some ident \<Rightarrow>
           if ident \<noteq> [] then
             (let base = (case map_of pkg ''url'' of Some u \<Rightarrow> u | None \<Rightarrow> gitlab_base)
              in [fetch w name (base @ ''/api/v4/projects/'' @ quote_slashes ident @ ''/'' @ type)
                    (if pyval_truthy (arg_gitlab_token args) \<and> base = github_base
                     then [(''Private-Token'', ''token '' @ pyval_str (arg_gitlab_token args))]
                     else [])])
           else []) pkgs)"

definition agitlab :: "args \<Rightarrow> catalog \<Rightarrow> string \<Rightarrow> string \<Rightarrow> world \<Rightarrow> py_error + vermap" where
  "agitlab args pkgs type field w =
     (case wait w (agitlab_aws w args pkgs type) of
        Inl e \<Rightarrow> Inl e
      | Inr done \<Rightarrow> releases_loop field done [])"

subsection \<open>\<^verbatim>\<open>aarch\<close>\<close>

definition aarch_aws :: "world \<Rightarrow> catalog \<Rightarrow> task list" where
  "aarch_aws w pkgs =
     map (\<lambda>(name, pkg).
       fetch w name (arch_base @ ''/?name='' @ (case map_of pkg ''arch'' of Some i \<Rightarrow> i | None \<Rightarrow> name)) [])
       pkgs"

fun aarch_loop :: "task list \<Rightarrow> vermap \<Rightarrow> py_error + vermap" where
  "aarch_loop [] res = Inr res"
| "aarch_loop ((name, r) # done) res =
     (case r of
        Inl e \<Rightarrow> Inl e
      | Inr resp \<Rightarrow>
          (case resp_json resp of
             Inl e \<Rightarrow> Inl e
           | Inr j0 \<Rightarrow>
               (case subscript j0 ''results'' of
                  Inl e \<Rightarrow> Inl e
                | Inr j \<Rightarrow>
                    if truthy j then
                      (case first_item j of
                         Inl e \<Rightarrow> Inl e
                       | Inr x \<Rightarrow>
                           (case subscript x ''pkgver'' of
                              Inl e \<Rightarrow> Inl e
                            | Inr pv \<Rightarrow>
                                (case try_parse_values [pv] of
                                   Inl e \<Rightarrow> Inl e
                                 | Inr vers \<Rightarrow>
                                     if vers \<noteq> [] then aarch_loop done (dict_set name (hd vers) res)
                                     else aarch_loop done res)))
                    else aarch_loop done res)))"

definition aarch :: "args \<Rightarrow> catalog \<Rightarrow> world \<Rightarrow> py_error + vermap" where
  "aarch args pkgs w =
     (case wait w (aarch_aws w pkgs) of
        Inl e \<Rightarrow> Inl e
      | Inr done \<Rightarrow> aarch_loop done [])"

subsection \<open>\<^verbatim>\<open>aaur\<close>\<close>

text \<open>The list \<^verbatim>\<open>query\<close>, one argument per item in the order of \<^verbatim>\<open>items\<close>, and the
  URL of the one batched request.\<close>

definition aaur_query :: "catalog \<Rightarrow> string list" where
  "aaur_query items =
     map (\<lambda>(name, pkg). ''arg[]='' @ (case map_of pkg ''aur'' of Some i \<Rightarrow> i | None \<Rightarrow> name)) items"

definition aaur_url :: "catalog \<Rightarrow> string" where
  "aaur_url items = aur_base @ ''/?v=5&type=info&'' @ join ''&'' (aaur_query items)"

text \<open>\<^verbatim>\<open>for i, v in enumerate(j)\<close>, with \<^verbatim>\<open>items[i][0]\<close> raising beyond the end of
  \<^verbatim>\<open>items\<close>.\<close>

fun aaur_loop :: "catalog \<Rightarrow> nat \<Rightarrow> json list \<Rightarrow> vermap \<Rightarrow> py_error + vermap" where
  "aaur_loop items i [] res = Inr res"
| "aaur_loop items i (v # vs) res =
     (if truthy v then
        (case subscript v ''Version'' of
           Inl e \<Rightarrow> Inl e
         | Inr ver \<Rightarrow>
             (case try_parse_values [ver] of
                Inl e \<Rightarrow> Inl e
              | Inr vers \<Rightarrow>
                  if vers \<noteq> [] then
                    (if i < length items
                     then aaur_loop items (Suc i) vs (dict_set (fst (items ! i)) (hd vers) res)
                     else Inl IndexError)
                  else aaur_loop items (Suc i) vs res))
      else aaur_loop items (Suc i) vs res)"

definition aaur :: "args \<Rightarrow> catalog \<Rightarrow> world \<Rightarrow> py_error + vermap" where
  "aaur args pkgs w =
     (case snd (fetch w ''aur'' (aaur_url pkgs) []) of
        Inl e \<Rightarrow> Inl e
      | Inr resp \<Rightarrow>
          (case resp_json resp of
             Inl e \<Rightarrow> Inl e
           | Inr j0 \<Rightarrow>
               (case subscript j0 ''results'' of
                  Inl e \<Rightarrow> Inl e
                | Inr j \<Rightarrow>
                    (case json_iter j of
                       Inl e \<Rightarrow> Inl e
                     | Inr vs \<Rightarrow> aaur_loop pkgs 0 vs []))))"

subsection \<open>\<^verbatim>\<open>git_get_version\<close> and \<^verbatim>\<open>agit\<close>\<close>

text \<open>
  \<^verbatim>\<open>tag_match = re.compile(r"^[0-9a-fA-F]+\s+refs/tags/([^/^]+)(\^\{\})?$")\<close>.
  The classes that follow one another in the pattern are disjoint, so each greedy
  repetition takes its whole run and the match is unique: hexadecimal digits, white space,
  the literal, the name (no \<^verbatim>\<open>/\<close> and no \<^verbatim>\<open>^\<close>), and then the end, or \<^verbatim>\<open>^{}\<close> and the
  end; \<^verbatim>\<open>$\<close> also matches before one final line feed.
\<close>

definition git_get_version :: "string \<Rightarrow> string option" where
  "git_get_version line =
     (let hex = takeWhile is_hex line; r1 = dropWhile is_hex line;
          sp = takeWhile is_space r1; r2 = dropWhile is_space r1;
          r3 = drop (length ''refs/tags/'') r2;
          name = takeWhile (\<lambda>c. c \<noteq> CHR ''/'' \<and> c \<noteq> CHR ''^'') r3;
          rest = dropWhile (\<lambda>c. c \<noteq> CHR ''/'' \<and> c \<noteq> CHR ''^'') r3
      in if hex \<noteq> [] \<and> sp \<noteq> [] \<and> take (length ''refs/tags/'') r2 = ''refs/tags/'' \<and> name \<noteq> [] \<and>
            (rest = [] \<or> rest = ''^{}'' \<or> rest = ''^{}'' @ [CHR 0x0A])
         then Some name else None)"

text \<open>
  \<^verbatim>\<open>urlparse(base).scheme\<close>, after \<^verbatim>\<open>urlsplit\<close> of CPython 3.8: the text before the first
  colon when it is made of scheme characters and what follows is not a port number, in
  lower case; \<^verbatim>\<open>ValueError\<close> when the network location has an unmatched square bracket.
\<close>

definition scheme_char :: "char \<Rightarrow> bool" where
  "scheme_char c = (is_lower c \<or> is_upper c \<or> is_digit c \<or> c \<in> set ''+-.'')"

definition urlparse_scheme :: "string \<Rightarrow> py_error + string" where
  "urlparse_scheme url =
     (let i = length (takeWhile (\<lambda>c. c \<noteq> CHR '':'') url);
          front = take i url;
          rest = drop (Suc i) url;
          split = (if i < length url \<and> 0 < i then
                     (if front = ''http'' then (''http'', rest)
                      else if list_all scheme_char front \<and> (rest = [] \<or> \<not> list_all is_digit rest)
                      then (lower front, rest)
                      else ([], url))
                   else ([], url));
          netloc = (if take 2 (snd split) = ''//''
                    then takeWhile (\<lambda>c. c \<notin> set ''/?#'') (drop 2 (snd split)) else [])
      in if (CHR ''['' \<in> set netloc) \<noteq> (CHR '']'' \<in> set netloc) then Inl ValueError
         else Inr (fst split))"

text \<open>
  \<^verbatim>\<open>agit\<close>.  As written the function is a plain \<^verbatim>\<open>def\<close> that contains \<^verbatim>\<open>await\<close>,
  which Python refuses to compile; the model follows its statements in their order, as
  the call \<^verbatim>\<open>run_until_complete(agit(args, pkgs))\<close> of its wrapper would run them.

  The first loop.  Its state is the list \<^verbatim>\<open>aws\<close> and the variable \<^verbatim>\<open>vers\<close>, which
  is unbound (\<open>None\<close>) until a package with a URL and \<^verbatim>\<open>primary == "git"\<close> binds it to
  the empty set (\<open>Some []\<close>).
\<close>

fun agit_requests :: "world \<Rightarrow> catalog \<Rightarrow> task list \<times> string list option \<Rightarrow>
    py_error + task list \<times> string list option" where
  "agit_requests w [] st = Inr st"
| "agit_requests w ((name, pkg) # pkgs) (aws, vers) =
     (case map_of pkg ''url'' of
        None \<Rightarrow> agit_requests w pkgs (aws, vers)
      | Some base \<Rightarrow>
          if base \<noteq> [] \<and> map_of pkg ''primary'' = Some ''git'' then
            (case urlparse_scheme base of
               Inl e \<Rightarrow> Inl e
             | Inr scheme \<Rightarrow>
                 if scheme \<in> set [''http'', ''https'']
                 then agit_requests w pkgs
                        (aws @ [fetch w name (base @ ''/info/refs?service=git-upload-pack'') []], Some [])
                 else agit_requests w pkgs (aws, Some []))
          else agit_requests w pkgs (aws, vers))"

text \<open>
  The second loop.  \<^verbatim>\<open>name, r = t.result()\<close> rebinds \<^verbatim>\<open>name\<close> and raises the
  exception of a failed task.  Then \<^verbatim>\<open>for line in r.text.splitlines()\<close>: \<^verbatim>\<open>r\<close> is the
  response of the \<^verbatim>\<open>aiohttp\<close> session, whose \<^verbatim>\<open>text\<close> is a coroutine method and not
  a string, so the attribute \<^verbatim>\<open>splitlines\<close> does not exist and the statement raises
  \<^verbatim>\<open>AttributeError\<close>.  The body of the inner loop (\<^verbatim>\<open>git_get_version\<close>,
  \<^verbatim>\<open>vers.add\<close>) is never reached, and the set \<^verbatim>\<open>vers\<close> stays empty.
\<close>

fun agit_collect :: "task list \<Rightarrow> string option \<times> string list option \<Rightarrow>
    py_error + string option \<times> string list option" where
  "agit_collect [] st = Inr st"
| "agit_collect ((n, r) # done) (name, vers) =
     (case r of
        Inl e \<Rightarrow> Inl e
      | Inr resp \<Rightarrow> Inl AttributeError)"

text \<open>
  The whole function.  Before the loops \<^verbatim>\<open>name\<close> is unbound; after the first loop it
  is the last key of \<^verbatim>\<open>pkgs\<close>.  The statements after the second loop are reached only
  when \<^verbatim>\<open>done\<close> is empty, which \<^verbatim>\<open>asyncio.wait\<close> excludes: \<^verbatim>\<open>agit\<close> never returns a
  mapping (lemma \<open>agit_raises\<close> below).
\<close>

definition agit :: "args \<Rightarrow> catalog \<Rightarrow> world \<Rightarrow> py_error + vermap" where
  "agit args pkgs w =
     (case agit_requests w pkgs ([], None) of
        Inl e \<Rightarrow> Inl e
      | Inr (aws, vers0) \<Rightarrow>
          (case wait w aws of
             Inl e \<Rightarrow> Inl e
           | Inr done \<Rightarrow>
               (case agit_collect done (if pkgs = [] then None else Some (fst (last pkgs)), vers0) of
                  Inl e \<Rightarrow> Inl e
                | Inr (name, vers1) \<Rightarrow>
                    (case vers1 of
                       None \<Rightarrow> Inl UnboundLocalError
                     | Some tags \<Rightarrow>
                         (let vers = try_parse_versions tags
                          in if vers \<noteq> [] then
                               (case name of
                                  None \<Rightarrow> Inl UnboundLocalError
                                | Some n \<Rightarrow> Inr (dict_set n (last vers) []))
                             else Inr [])))))"

subsection \<open>The synchronous wrappers and the tables \<^verbatim>\<open>sources_list\<close>, \<^verbatim>\<open>sources\<close>\<close>

definition github :: "world source" where
  "github args pkgs w = (agithub args pkgs ''releases'' ''tag_name'' w, w)"

definition github_tags :: "world source" where
  "github_tags args pkgs w = (agithub args pkgs ''tags'' ''name'' w, w)"

definition gitlab :: "world source" where
  "gitlab args pkgs w = (agitlab args pkgs ''releases'' ''tag_name'' w, w)"

definition gitlab_tags :: "world source" where
  "gitlab_tags args pkgs w = (agitlab args pkgs ''repository/tags'' ''name'' w, w)"

definition arch :: "world source" where
  "arch args pkgs w = (aarch args pkgs w, w)"

definition aur :: "world source" where
  "aur args pkgs w = (aaur args pkgs w, w)"

definition git :: "world source" where
  "git args pkgs w = (agit args pkgs w, w)"

definition sources_list :: "(string \<times> world source) list" where
  "sources_list = [(''github'', github), (''gitlab'', gitlab), (''aur'', aur), (''arch'', arch)]"

definition sources :: "(string, world source) dict" where
  "sources = sources_list @
     [(''github_tags'', github_tags), (''gitlab_tags'', gitlab_tags), (''git'', git)]"


section \<open>The resolution orchestrator\<close>

text \<open>
  The orchestrator is modelled over any table of adapters (\<open>srcs\<close> for \<^verbatim>\<open>sources\<close>,
  \<open>sl\<close> for \<^verbatim>\<open>sources_list\<close>) and any type of world.  A run carries the world and a
  trace with one entry for every adapter call: what \<^verbatim>\<open>status\<close> is given after the call
  (the source, the names asked, the mapping found) together with the phase and the value
  of \<^verbatim>\<open>vers\<close> after the merge.  A call that raises is traced too, with its exception
  and the unchanged \<^verbatim>\<open>vers\<close>.  The printing of \<^verbatim>\<open>status\<close> and \<^verbatim>\<open>eprint\<close> is not
  modelled.
\<close>

datatype phase = Primary | Secondary

record call =
  c_phase :: phase
  c_source :: string
  c_query :: "string list"
  c_found :: "py_error + vermap"
  c_vers :: vermap

record 'w run =
  r_world :: 'w
  r_calls :: "call list"

definition traced :: "phase \<Rightarrow> string \<Rightarrow> catalog \<Rightarrow> py_error + vermap \<Rightarrow> vermap \<Rightarrow> 'w \<Rightarrow>
    'w run \<Rightarrow> 'w run" where
  "traced ph name query found vers w r =
     \<lparr> r_world = w,
       r_calls = r_calls r @
         [\<lparr> c_phase = ph, c_source = name, c_query = keys query, c_found = found, c_vers = vers \<rparr>] \<rparr>"

text \<open>\<^verbatim>\<open>itertools.groupby\<close>: the runs of consecutive items with equal keys.\<close>

function groupby :: "('a \<Rightarrow> 'k) \<Rightarrow> 'a list \<Rightarrow> ('k \<times> 'a list) list" where
  "groupby f [] = []"
| "groupby f (x # xs) =
     (f x, x # takeWhile (\<lambda>y. f y = f x) xs) # groupby f (dropWhile (\<lambda>y. f y = f x) xs)"
  by pat_completeness auto
termination
  by (relation "measure (\<lambda>(f, xs). length xs)") (auto simp: length_dropWhile_le less_Suc_eq_le)

text \<open>
  \<^verbatim>\<open>get_primary\<close>.  The items that have a \<^verbatim>\<open>primary\<close> key, each with the value of
  that key, which is the key of the sort and of the grouping.
\<close>

definition primary_items :: "catalog \<Rightarrow> (string \<times> string \<times> pkg) list" where
  "primary_items c =
     concat (map (\<lambda>(k, v). case map_of v ''primary'' of None \<Rightarrow> [] | Some p \<Rightarrow> [(p, k, v)]) c)"

definition primary_groups :: "catalog \<Rightarrow> (string \<times> (string \<times> pkg) list) list" where
  "primary_groups c =
     map (\<lambda>(k, g). (k, map snd g)) (groupby fst (sort_key fst (primary_items c)))"

fun primary_loop :: "(string, 'w source) dict \<Rightarrow> args \<Rightarrow> (string \<times> (string \<times> pkg) list) list \<Rightarrow>
    vermap \<Rightarrow> string list \<Rightarrow> 'w run \<Rightarrow> (py_error + vermap \<times> string list) \<times> 'w run" where
  "primary_loop srcs args [] vers asked r = (Inr (vers, asked), r)"
| "primary_loop srcs args ((k, g) # groups) vers asked r =
     (let x = dict_of g; asked' = List.insert k asked
      in case map_of srcs k of
           None \<Rightarrow> (Inl (KeyError k), r)
         | Some s \<Rightarrow>
             (case s args x (r_world r) of
                (Inl e, w') \<Rightarrow> (Inl e, traced Primary k x (Inl e) vers w' r)
              | (Inr new, w') \<Rightarrow>
                  primary_loop srcs args groups (update vers new) asked'
                    (traced Primary k x (Inr new) (update vers new) w' r)))"

definition get_primary :: "(string, 'w source) dict \<Rightarrow> args \<Rightarrow> catalog \<Rightarrow> vermap \<Rightarrow> 'w run \<Rightarrow>
    (py_error + vermap \<times> string list) \<times> 'w run" where
  "get_primary srcs args c vers r = primary_loop srcs args (primary_groups c) vers [] r"

text \<open>\<^verbatim>\<open>{k: v for k, v in c.items() if k not in vers}\<close>\<close>

definition unresolved :: "catalog \<Rightarrow> vermap \<Rightarrow> catalog" where
  "unresolved c vers = filter (\<lambda>(k, v). k \<notin> set (keys vers)) c"

definition get_secondary_source :: "args \<Rightarrow> catalog \<Rightarrow> string \<times> 'w source \<Rightarrow> vermap \<Rightarrow> catalog \<Rightarrow>
    'w run \<Rightarrow> (py_error + vermap \<times> catalog) \<times> 'w run" where
  "get_secondary_source args c s vers left r =
     (case snd s args left (r_world r) of
        (Inl e, w') \<Rightarrow> (Inl e, traced Secondary (fst s) left (Inl e) vers w' r)
      | (Inr new, w') \<Rightarrow>
          (let vers' = update vers new;
               r' = traced Secondary (fst s) left (Inr new) vers' w' r
           in if pyval_truthy (arg_trust_secondary args)
              then (Inr (vers', unresolved c vers'), r')
              else (Inr (vers', left), r')))"

text \<open>The loop of \<^verbatim>\<open>run_secondary\<close> over the selected sources, with its \<^verbatim>\<open>break\<close>.\<close>

fun secondary_loop :: "args \<Rightarrow> catalog \<Rightarrow> (string \<times> 'w source) list \<Rightarrow> vermap \<Rightarrow> catalog \<Rightarrow>
    'w run \<Rightarrow> (py_error + vermap \<times> catalog) \<times> 'w run" where
  "secondary_loop args c [] vers left r = (Inr (vers, left), r)"
| "secondary_loop args c (s # ss) vers left r =
     (case get_secondary_source args c s vers left r of
        (Inl e, r') \<Rightarrow> (Inl e, r')
      | (Inr (vers', left'), r') \<Rightarrow>
          if left' = [] then (Inr (vers', left'), r')
          else secondary_loop args c ss vers' left' r')"

definition run_secondary :: "(string \<times> 'w source) list \<Rightarrow> args \<Rightarrow> catalog \<Rightarrow> vermap \<Rightarrow>
    string list \<Rightarrow> catalog \<Rightarrow> (string \<Rightarrow> string list \<Rightarrow> bool) \<Rightarrow> 'w run \<Rightarrow>
    (py_error + vermap \<times> catalog) \<times> 'w run" where
  "run_secondary sl args c vers asked left l r =
     (if left \<noteq> [] then secondary_loop args c (filter (\<lambda>x. l (fst x) asked) sl) vers left r
      else (Inr (vers, left), r))"

definition get_secondary :: "(string \<times> 'w source) list \<Rightarrow> args \<Rightarrow> catalog \<Rightarrow> vermap \<Rightarrow>
    string list \<Rightarrow> catalog \<Rightarrow> 'w run \<Rightarrow> (py_error + vermap \<times> catalog) \<times> 'w run" where
  "get_secondary sl args c vers asked left r =
     (case run_secondary sl args c vers asked left (\<lambda>name asked. name \<notin> set asked) r of
        (Inl e, r') \<Rightarrow> (Inl e, r')
      | (Inr (vers', left'), r') \<Rightarrow>
          run_secondary sl args c vers' asked left' (\<lambda>name asked. name \<in> set asked) r')"

text \<open>\<^verbatim>\<open>get_vers\<close> returns the resolved map and the names left, joined into one string.\<close>

definition get_vers :: "(string, 'w source) dict \<Rightarrow> (string \<times> 'w source) list \<Rightarrow> args \<Rightarrow> catalog \<Rightarrow>
    'w run \<Rightarrow> (py_error + vermap \<times> string) \<times> 'w run" where
  "get_vers srcs sl args c r =
     (case (if pyval_truthy (arg_primary args) then get_primary srcs args c [] r
            else (Inr ([], []), r)) of
        (Inl e, r1) \<Rightarrow> (Inl e, r1)
      | (Inr (vers, asked), r1) \<Rightarrow>
          (let left = (if pyval_truthy (arg_trust_primary args) then unresolved c vers else c)
           in case (if pyval_truthy (arg_secondary args) \<and> left \<noteq> []
                    then get_secondary sl args c vers asked left r1
                    else (Inr (vers, left), r1)) of
                (Inl e, r2) \<Rightarrow> (Inl e, r2)
              | (Inr (vers', left'), r2) \<Rightarrow> (Inr (vers', join '', '' (keys left')), r2)))"

section \<open>Options and the command line\<close>

definition defaults :: "(string, pyval) dict" where
  "defaults =
     [(''primary'', PBool True), (''secondary'', PBool True), (''trust_primary'', PBool True),
      (''trust_secondary'', PBool True), (''print_names'', PBool False), (''quiet'', PBool False)]"

text \<open>\<^verbatim>\<open>read_config\<close>: the first key of \<^verbatim>\<open>config\<close> that is no key of \<^verbatim>\<open>args\<close> raises
  \<^verbatim>\<open>KeyError\<close>; then every argument that is \<^verbatim>\<open>None\<close> takes the value of the
  configuration, or else the default, or else stays \<^verbatim>\<open>None\<close>.\<close>

fun unknown_key :: "string list \<Rightarrow> (string, pyval) dict \<Rightarrow> string option" where
  "unknown_key [] a = None"
| "unknown_key (k # ks) a = (if k \<notin> set (keys a) then Some k else unknown_key ks a)"

definition read_config :: "(string, pyval) dict \<Rightarrow> (string, pyval) dict \<Rightarrow>
    py_error + (string, pyval) dict" where
  "read_config a config =
     (case unknown_key (keys config) a of
        Some k \<Rightarrow> Inl (KeyError k)
      | None \<Rightarrow>
          Inr (map (\<lambda>(k, v).
                 (k, if v = PNone
                     then (case map_of config k of
                             Some x \<Rightarrow> x
                           | None \<Rightarrow> (case map_of defaults k of Some d \<Rightarrow> d | None \<Rightarrow> PNone))
                     else v)) a))"

text \<open>The keyword arguments that \<^verbatim>\<open>click\<close> passes to \<^verbatim>\<open>cli\<close>: one per declared option,
  \<^verbatim>\<open>None\<close> when the option is not given.\<close>

record cli_options =
  o_github_token :: "string option"
  o_gitlab_token :: "string option"
  o_primary :: "bool option"
  o_secondary :: "bool option"
  o_trust_primary :: "bool option"
  o_trust_secondary :: "bool option"
  o_print_names :: "bool option"
  o_quiet :: "bool option"

definition opt_str :: "string option \<Rightarrow> pyval" where
  "opt_str x = (case x of None \<Rightarrow> PNone | Some s \<Rightarrow> PStr s)"

definition opt_bool :: "bool option \<Rightarrow> pyval" where
  "opt_bool x = (case x of None \<Rightarrow> PNone | Some b \<Rightarrow> PBool b)"

definition kwargs :: "cli_options \<Rightarrow> (string, pyval) dict" where
  "kwargs opts =
     [(''github_token'', opt_str (o_github_token opts)),
      (''gitlab_token'', opt_str (o_gitlab_token opts)),
      (''primary'', opt_bool (o_primary opts)),
      (''secondary'', opt_bool (o_secondary opts)),
      (''trust_primary'', opt_bool (o_trust_primary opts)),
      (''trust_secondary'', opt_bool (o_trust_secondary opts)),
      (''print_names'', opt_bool (o_print_names opts)),
      (''quiet'', opt_bool (o_quiet opts))]"

text \<open>\<^verbatim>\<open>args[name]\<close> for each of the eight names; \<^verbatim>\<open>read_config\<close> keeps the keys of
  its first argument, so every name is present.\<close>

definition option_value :: "(string, pyval) dict \<Rightarrow> string \<Rightarrow> pyval" where
  "option_value a k = (case map_of a k of Some v \<Rightarrow> v | None \<Rightarrow> PNone)"

definition args_of :: "(string, pyval) dict \<Rightarrow> args" where
  "args_of a =
     \<lparr> arg_github_token = option_value a ''github_token'',
       arg_gitlab_token = option_value a ''gitlab_token'',
       arg_primary = option_value a ''primary'',
       arg_secondary = option_value a ''secondary'',
       arg_trust_primary = option_value a ''trust_primary'',
       arg_trust_secondary = option_value a ''trust_secondary'',
       arg_print_names = option_value a ''print_names'',
       arg_quiet = option_value a ''quiet'' \<rparr>"

text \<open>
  The configuration document, as \<^verbatim>\<open>toml.load\<close> returns it: the package tables before
  and after the table \<^verbatim>\<open>johnny_config\<close>, and that table when the document has one.
\<close>

record document =
  d_before :: catalog
  d_config :: "(string, pyval) dict option"
  d_after :: catalog

text \<open>\<^verbatim>\<open>str(v)\<close> of a version.\<close>

definition local_str :: "local_part \<Rightarrow> string" where
  "local_str p = (case p of LNum n \<Rightarrow> show_nat n | LStr s \<Rightarrow> s)"

definition version_str :: "version \<Rightarrow> string" where
  "version_str v =
     base_version v @
     (case v_pre v of None \<Rightarrow> [] | Some (l, n) \<Rightarrow> l @ show_nat n) @
     (case v_post v of None \<Rightarrow> [] | Some (l, n) \<Rightarrow> ''.post'' @ show_nat n) @
     (case v_dev v of None \<Rightarrow> [] | Some (l, n) \<Rightarrow> ''.dev'' @ show_nat n) @
     (case v_local v of None \<Rightarrow> [] | Some l \<Rightarrow> ''+'' @ join ''.'' (map local_str l))"

definition make_serializable :: "vermap \<Rightarrow> (string, string) dict" where
  "make_serializable s = map (\<lambda>(k, v). (k, version_str v)) s"

text \<open>
  \<^verbatim>\<open>cli\<close>: the options are read before \<^verbatim>\<open>get_vers\<close> is called.  An empty
  \<^verbatim>\<open>johnny_config\<close> table is falsy and is not deleted from \<^verbatim>\<open>c\<close>.  The result is the
  dictionary that is printed as JSON and the exit status.
\<close>

definition cli :: "(string, 'w source) dict \<Rightarrow> (string \<times> 'w source) list \<Rightarrow> cli_options \<Rightarrow> document \<Rightarrow>
    'w run \<Rightarrow> (py_error + (string, string) dict \<times> nat) \<times> 'w run" where
  "cli srcs sl opts doc r =
     (let jc = (case d_config doc of None \<Rightarrow> [] | Some t \<Rightarrow> t)
      in case read_config (kwargs opts) jc of
           Inl e \<Rightarrow> (Inl e, r)
         | Inr a \<Rightarrow>
             (let c = (if jc \<noteq> [] \<or> d_config doc = None then d_before doc @ d_after doc
                       else d_before doc @ [(''johnny_config'', [])] @ d_after doc)
              in case get_vers srcs sl (args_of a) c r of
                   (Inl e, r') \<Rightarrow> (Inl e, r')
                 | (Inr (vers, left), r') \<Rightarrow>
                     (Inr (make_serializable vers, if left \<noteq> [] then 1 else 0), r')))"


section \<open>Notions used to state the claims\<close>



text \<open>The inputs of the examples: options as the defaults give them, a world that answers
  the aggregator's batch request for \<^verbatim>\<open>x\<close> and \<^verbatim>\<open>y\<close>, one that answers a batch of
  three with an entry that has no \<^verbatim>\<open>Version\<close>, and one with a git remote.\<close>

definition no_options :: args where
  "no_options =
     \<lparr> arg_github_token = PNone, arg_gitlab_token = PNone, arg_primary = PBool True,
       arg_secondary = PBool True, arg_trust_primary = PBool True, arg_trust_secondary = PBool True,
       arg_print_names = PBool False, arg_quiet = PBool False \<rparr>"

definition json_response :: "json \<Rightarrow> py_error + response" where
  "json_response j = Inr \<lparr> resp_json = Inr j \<rparr>"

definition aur_example_world :: world where
  "aur_example_world =
     \<lparr> http_get = (\<lambda>url hdrs.
         if url = ''https://aur.archlinux.org/rpc/?v=5&type=info&arg[]=x&arg[]=y''
         then json_response (JObj [(''results'', JArr [JNull, JObj [(''Version'', JStr ''2.0'')]])])
         else Inl ClientError),
       done_rank = (\<lambda>name. 0) \<rparr>"


definition git_example_world :: world where
  "git_example_world =
     \<lparr> http_get = (\<lambda>url hdrs.
         if url = ''https://h/p/info/refs?service=git-upload-pack''
         then Inr \<lparr> resp_json = Inl JSONDecodeError \<rparr>
         else Inl ClientError),
       done_rank = (\<lambda>name. 0) \<rparr>"

definition git_example_pkgs :: catalog where
  "git_example_pkgs = [(''p'', [(''primary'', ''git''), (''url'', ''https://h/p'')])]"

text \<open>A catalog of two packages and a world in which the distribution index knows
  \<^verbatim>\<open>p\<close> and the two forges know \<^verbatim>\<open>q\<close>.\<close>

definition run_example_catalog :: catalog where
  "run_example_catalog =
     [(''p'', [(''primary'', ''arch'')]),
      (''q'', [(''github'', ''o/q''), (''gitlab'', ''g/q'')])]"

definition run_example_world :: world where
  "run_example_world =
     \<lparr> http_get = (\<lambda>url hdrs.
         if url = ''https://www.archlinux.org/packages/search/json/?name=p''
         then json_response (JObj [(''results'', JArr [JObj [(''pkgver'', JStr ''1.0'')]])])
         else if url = ''https://api.github.com/repos/o/q/releases''
         then json_response (JArr [JObj [(''tag_name'', JStr ''v2.0'')], JObj [(''tag_name'', JStr ''v1.5'')]])
         else if url = ''https://gitlab.com/api/v4/projects/g%2Fq/releases''
         then json_response (JArr [JObj [(''tag_name'', JStr ''2.1'')]])
         else if url = ''https://aur.archlinux.org/rpc/?v=5&type=info&arg[]=q''
         then json_response (JObj [(''results'', JArr [JNull])])
         else if url = ''https://www.archlinux.org/packages/search/json/?name=q''
         then json_response (JObj [(''results'', JArr [])])
         else Inl ClientError),
       done_rank = (\<lambda>name. 0) \<rparr>"

definition option_names :: "string list" where
  "option_names =
     [''github_token'', ''gitlab_token'', ''primary'', ''secondary'', ''trust_primary'',
      ''trust_secondary'', ''print_names'', ''quiet'']"

definition no_cli_options :: cli_options where
  "no_cli_options =
     \<lparr> o_github_token = None, o_gitlab_token = None, o_primary = None, o_secondary = None,
       o_trust_primary = None, o_trust_secondary = None, o_print_names = None, o_quiet = None \<rparr>"

definition start :: "'w \<Rightarrow> 'w run" where
  "start w = \<lparr> r_world = w, r_calls = [] \<rparr>"

text \<open>
  The resolved map \<open>m2\<close> is nowhere lower than \<open>m1\<close>: every name of \<open>m1\<close> is a name of
  \<open>m2\<close>, with a value that is greater or equal.  A mapping \<open>new\<close> that a source returned
  is covered by \<open>vers\<close> when \<open>vers\<close> has, for every entry of \<open>new\<close>, a value that is
  greater or equal.
\<close>

definition never_lower :: "vermap \<Rightarrow> vermap \<Rightarrow> bool" where
  "never_lower m1 m2 =
     (\<forall>k \<in> set (keys m1).
        case map_of m1 k of
          None \<Rightarrow> True
        | Some v \<Rightarrow> (case map_of m2 k of None \<Rightarrow> False | Some v' \<Rightarrow> ver_ge v' v))"


text \<open>
  Three properties of a trace.  The values of \<^verbatim>\<open>vers\<close> it records never decrease and
  end below the current value; no call of the secondary phase had the package \<open>P\<close> in
  its query; every call of a list was a call of the secondary phase on the packages
  \<open>left\<close> that returned a mapping covered by \<open>vers\<close>.
\<close>

definition chain :: "'w run \<Rightarrow> vermap \<Rightarrow> bool" where
  "chain r vers =
     (sorted_wrt never_lower (map c_vers (r_calls r)) \<and>
      (\<forall>cl \<in> set (r_calls r). never_lower (c_vers cl) vers))"

definition avoids :: "string \<Rightarrow> 'w run \<Rightarrow> bool" where
  "avoids P r = (\<forall>cl \<in> set (r_calls r). c_phase cl = Secondary \<longrightarrow> P \<notin> set (c_query cl))"


text \<open>The options of the examples with \<^verbatim>\<open>trust_secondary\<close> disabled.\<close>

definition untrusting_options :: args where
  "untrusting_options = no_options \<lparr> arg_trust_secondary := PBool False \<rparr>"

section \<open>Properties of the version library\<close>

subsection \<open>Decimal numerals\<close>

lemma digit_char_props:
  assumes "d < 10"
  shows "is_digit (digit_char d)" "digit_val (digit_char d) = d" "\<not> is_upper (digit_char d)"
    "\<not> is_space (digit_char d)" "digit_char d \<noteq> CHR ''.''" "digit_char d \<noteq> CHR ''!''"
    "digit_char d \<noteq> CHR ''v''"
proof -
  from assms have "d \<in> set [0,1,2,3,4,5,6,7,8,9::nat]" by auto
  then have "is_digit (digit_char d) \<and> digit_val (digit_char d) = d \<and> \<not> is_upper (digit_char d)
     \<and> \<not> is_space (digit_char d) \<and> digit_char d \<noteq> CHR ''.'' \<and> digit_char d \<noteq> CHR ''!''
     \<and> digit_char d \<noteq> CHR ''v''"
    unfolding set_simps by (elim insertE emptyE; simp add: is_digit_def digit_val_def digit_char_def is_upper_def is_space_def)
  then show "is_digit (digit_char d)" "digit_val (digit_char d) = d" "\<not> is_upper (digit_char d)"
    "\<not> is_space (digit_char d)" "digit_char d \<noteq> CHR ''.''" "digit_char d \<noteq> CHR ''!''"
    "digit_char d \<noteq> CHR ''v''" by simp_all
qed

lemma show_nat_digits: "list_all is_digit (show_nat n)"
  by (induction n rule: show_nat.induct) (subst show_nat.simps, simp add: digit_char_props)

lemma show_nat_nonempty: "show_nat n \<noteq> []"
  by (subst show_nat.simps) simp

lemma nat_of_digits_snoc: "nat_of_digits (s @ [c]) = 10 * nat_of_digits s + digit_val c"
  by (simp add: nat_of_digits_def)

lemma nat_of_digits_show: "nat_of_digits (show_nat n) = n"
proof (induction n rule: show_nat.induct)
  case (1 n)
  show ?case
  proof (cases "n < 10")
    case True
    then show ?thesis by (subst show_nat.simps) (simp add: nat_of_digits_def digit_char_props)
  next
    case False
    with 1 have "nat_of_digits (show_nat (n div 10)) = n div 10" by simp
    with False show ?thesis
      by (subst show_nat.simps) (simp add: nat_of_digits_snoc digit_char_props)
  qed
qed


lemma show_nat_chars:
  "c \<in> set (show_nat n) \<Longrightarrow> is_digit c"
  using show_nat_digits [of n] by (simp add: list_all_iff)

lemma is_digit_not_special:
  assumes "is_digit c"
  shows "\<not> is_upper c" "\<not> is_space c" "c \<noteq> CHR ''.''" "c \<noteq> CHR ''!''" "c \<noteq> CHR ''v''"
  using assms by (auto simp: is_digit_def is_upper_def is_space_def)

subsection \<open>prefixes\<close>

lemma concat_if_filter:
  "concat (map (\<lambda>n. if P n then [f n] else []) xs) = map f (filter P xs)"
  by (induction xs) simp_all

lemma prefixes_where_alt:
  "prefixes_where ok s =
     map (\<lambda>n. (take n s, drop n s)) (filter (\<lambda>n. ok (take n s)) (rev [1 ..< Suc (length s)]))"
  unfolding prefixes_where_def by (rule concat_if_filter)

lemma prefixes_where_longest:
  assumes k: "1 \<le> k" "k \<le> length s" and ok: "ok (take k s)"
    and longer: "\<And>n. k < n \<Longrightarrow> n \<le> length s \<Longrightarrow> \<not> ok (take n s)"
  shows "\<exists>ys. prefixes_where ok s = (take k s, drop k s) # ys"
proof -
  have split: "[1 ..< Suc (length s)] = [1 ..< k] @ k # [Suc k ..< Suc (length s)]"
  proof -
    from k obtain d where d: "Suc (length s) = k + d" "0 < d"
      by (metis add_Suc_right le_Suc_ex zero_less_Suc)
    have "[1 ..< k + d] = [1 ..< k] @ [k ..< k + d]" using k by (intro upt_add_eq_append) simp
    also have "[k ..< k + d] = k # [Suc k ..< k + d]" using d by (intro upt_conv_Cons) simp
    finally show ?thesis using d by simp
  qed
  have none: "filter (\<lambda>n. ok (take n s)) [Suc k ..< Suc (length s)] = []"
  proof -
    have "\<not> ok (take n s)" if "n \<in> set [Suc k ..< Suc (length s)]" for n
    proof (rule longer)
      from that have "Suc k \<le> n \<and> n < Suc (length s)" unfolding set_upt by simp
      then show "k < n" "n \<le> length s" by arith+
    qed
    then show ?thesis unfolding filter_empty_conv by blast
  qed
  show ?thesis
    unfolding prefixes_where_alt split using ok none by (simp add: rev_filter [symmetric])
qed

lemma prefixes_where_whole:
  assumes "s \<noteq> []" "ok s"
  shows "\<exists>ys. prefixes_where ok s = (s, []) # ys"
  using prefixes_where_longest [of "length s" s ok] assms by (cases s) auto

lemma prefixes_where_rest:
  "(t, r) \<in> set (prefixes_where ok s) \<Longrightarrow> s = t @ r \<and> ok t \<and> t \<noteq> []"
  by (auto simp: prefixes_where_alt)


subsection \<open>split and join\<close>

lemma split_on_nonempty: "split_on sep s \<noteq> []"
  by (induction s) (auto split: list.splits)

lemma split_on_no_sep: "\<forall>c \<in> set p. \<not> sep c \<Longrightarrow> split_on sep p = [p]"
  by (induction p) auto

lemma split_on_append:
  "\<forall>c \<in> set p. \<not> sep c \<Longrightarrow> sep d \<Longrightarrow> split_on sep (p @ d # r) = p # split_on sep r"
  by (induction p) auto

lemma split_on_join:
  assumes "ps \<noteq> []" "\<forall>p \<in> set ps. \<forall>c \<in> set p. \<not> sep c" "sep d"
  shows "split_on sep (join [d] ps) = ps"
  using assms
proof (induction "[d]" ps rule: join.induct)
  case 1 then show ?case by simp
next
  case (2 p) then show ?case by (simp add: split_on_no_sep)
next
  case (3 p q ps)
  then show ?case by (simp add: split_on_append)
qed

lemma join_nonempty: "ps \<noteq> [] \<Longrightarrow> \<forall>p \<in> set ps. p \<noteq> [] \<Longrightarrow> join sep ps \<noteq> []"
  by (induction sep ps rule: join.induct) auto

lemma set_join: "set (join sep ps) \<subseteq> set sep \<union> \<Union> (set ` set ps)"
  by (induction sep ps rule: join.induct) auto

subsection \<open>the base version parses\<close>

lemma release_str_chars: "c \<in> set (release_str rel) \<Longrightarrow> is_digit c \<or> c = CHR ''.''"
  using set_join [of "''.''" "map show_nat rel"] show_nat_chars
  by (auto simp: release_str_def)

lemma release_str_nonempty: "rel \<noteq> [] \<Longrightarrow> release_str rel \<noteq> []"
  unfolding release_str_def by (rule join_nonempty) (auto simp: show_nat_nonempty)

lemma split_release_str:
  "rel \<noteq> [] \<Longrightarrow> split_on (\<lambda>c. c = CHR ''.'') (release_str rel) = map show_nat rel"
  unfolding release_str_def
  by (rule split_on_join) (auto dest: show_nat_chars is_digit_not_special)

lemma is_release_str: "rel \<noteq> [] \<Longrightarrow> is_release (release_str rel)"
  by (simp add: is_release_def split_release_str list_all_iff all_digits1_def show_nat_nonempty show_nat_chars)

lemma m_release_str:
  assumes "rel \<noteq> []"
  shows "\<exists>ys. m_release (release_str rel) = (rel, []) # ys"
proof -
  from prefixes_where_whole [of "release_str rel" is_release]
    release_str_nonempty [OF assms] is_release_str [OF assms]
  obtain ys where "prefixes_where is_release (release_str rel) = (release_str rel, []) # ys" by blast
  then show ?thesis
    by (simp add: m_release_def split_release_str [OF assms] comp_def nat_of_digits_show)
qed

lemma m_lit_none: "c \<notin> set r \<Longrightarrow> m_lit [c] r = []"
  by (cases r) (auto simp: m_lit_def)

lemma m_epoch_none:
  assumes "CHR ''!'' \<notin> set s"
  shows "m_epoch s = [(None, s)]"
proof -
  have "m_lit ''!'' r = []" if "(t, r) \<in> set (prefixes_where all_digits1 s)" for t r
  proof (rule m_lit_none)
    from prefixes_where_rest [OF that] assms show "CHR ''!'' \<notin> set r" by auto
  qed
  then have "[(e, r'). (e, r) \<leftarrow> m_digits s, (_, r') \<leftarrow> m_lit ''!'' r] = []"
    by (auto simp: m_digits_def)
  then show ?thesis by (simp add: m_epoch_def m_opt_def)
qed

lemma m_digits_show:
  assumes "r = [] \<or> \<not> is_digit (hd r)"
  shows "\<exists>ys. m_digits (show_nat e @ r) = (e, r) # ys"
proof -
  let ?s = "show_nat e @ r" and ?k = "length (show_nat e)"
  have "\<exists>ys. prefixes_where all_digits1 ?s = (take ?k ?s, drop ?k ?s) # ys"
  proof (rule prefixes_where_longest)
    show "1 \<le> ?k" using show_nat_nonempty [of e] by (cases "show_nat e") auto
    show "?k \<le> length ?s" by simp
    show "all_digits1 (take ?k ?s)" by (simp add: all_digits1_def show_nat_nonempty show_nat_digits)
  next
    fix n assume n: "?k < n" "n \<le> length ?s"
    then have "r \<noteq> []" by auto
    with assms have nd: "\<not> is_digit (hd r)" by simp
    from n \<open>r \<noteq> []\<close> have "hd r \<in> set (take (n - ?k) r)"
      by (cases r) (auto simp: take_Cons')
    with nd n show "\<not> all_digits1 (take n ?s)"
      by (auto simp: all_digits1_def list_all_iff)
  qed
  then show ?thesis by (auto simp: m_digits_def nat_of_digits_show)
qed

lemma m_epoch_some:
  "\<exists>ys. m_epoch (show_nat e @ ''!'' @ t) = (Some e, t) # ys"
proof -
  from m_digits_show [of "''!'' @ t" e]
  obtain ys where "m_digits (show_nat e @ ''!'' @ t) = (e, ''!'' @ t) # ys"
    by (auto simp: is_digit_def)
  then show ?thesis by (simp add: m_epoch_def m_opt_def m_lit_def)
qed

lemma m_qualifiers_Nil: "m_qualifiers [] = [(None, None, None, None)]"
  by code_simp

lemma mk_version_plain:
  "mk_version e rel (None, None, None, None) =
     \<lparr> v_epoch = (case e of None \<Rightarrow> 0 | Some n \<Rightarrow> n), v_release = rel,
       v_pre = None, v_post = None, v_dev = None, v_local = None \<rparr>"
  by (simp add: mk_version_def parse_local_version_def)


lemma base_version_chars:
  "c \<in> set (base_version v) \<Longrightarrow> is_digit c \<or> c = CHR ''.'' \<or> c = CHR ''!''"
  using release_str_chars [of c "v_release v"] show_nat_chars [of c "v_epoch v"]
  by (auto simp: base_version_def split: if_splits)

lemma base_version_hd:
  assumes "v_release v \<noteq> []"
  shows "base_version v \<noteq> []" "is_digit (hd (base_version v))"
proof -
  obtain x xs where rel: "v_release v = x # xs" using assms by (cases "v_release v") auto
  have hd_show: "is_digit (hd (show_nat n))" for n
    using show_nat_nonempty [of n] show_nat_chars [of "hd (show_nat n)" n] by simp
  have join_hd: "hd (join ''.'' (show_nat x # map show_nat xs)) = hd (show_nat x)"
    using show_nat_nonempty [of x] by (cases xs) auto
  show "base_version v \<noteq> []"
    using release_str_nonempty [OF assms] by (simp add: base_version_def)
  show "is_digit (hd (base_version v))"
    using hd_show [of "v_epoch v"] hd_show [of x] show_nat_nonempty [of "v_epoch v"]
    by (simp add: base_version_def release_str_def rel join_hd hd_append)
qed

lemma base_version_prelude:
  assumes "v_release v \<noteq> []"
  shows "m_opt (m_lit ''v'') (dropWhile is_space (lower (base_version v))) = [(None, base_version v)]"
proof -
  have low: "lower (base_version v) = base_version v"
    unfolding lower_def
    by (rule map_idI) (auto simp: to_lower_def is_upper_def dest!: base_version_chars simp: is_digit_def)
  have sp: "dropWhile is_space (base_version v) = base_version v"
    using base_version_hd [OF assms] is_digit_not_special(2)
    by (cases "base_version v") auto
  have "CHR ''v'' \<notin> set (base_version v)"
    by (auto dest!: base_version_chars simp: is_digit_def)
  then have "m_lit ''v'' (base_version v) = []" by (rule m_lit_none)
  then show ?thesis by (simp add: low sp m_opt_def)
qed

lemma version_matches_base:
  assumes "v_release v \<noteq> []"
  shows "\<exists>ys. version_matches (base_version v) =
     \<lparr> v_epoch = v_epoch v, v_release = v_release v,
       v_pre = None, v_post = None, v_dev = None, v_local = None \<rparr> # ys"
proof -
  obtain zs where rel: "m_release (release_str (v_release v)) = (v_release v, []) # zs"
    using m_release_str [OF assms] by blast
  show ?thesis
  proof (cases "v_epoch v = 0")
    case True
    then have bv: "base_version v = release_str (v_release v)"
      by (simp add: base_version_def)
    have "CHR ''!'' \<notin> set (release_str (v_release v))"
      by (auto dest!: release_str_chars simp: is_digit_def)
    then have ep: "m_epoch (release_str (v_release v)) = [(None, release_str (v_release v))]"
      by (rule m_epoch_none)
    show ?thesis
      unfolding version_matches_def base_version_prelude [OF assms]
      by (simp add: bv ep rel m_qualifiers_Nil mk_version_plain True)
  next
    case False
    then have bv: "base_version v = show_nat (v_epoch v) @ ''!'' @ release_str (v_release v)"
      by (simp add: base_version_def)
    obtain ws where ep: "m_epoch (show_nat (v_epoch v) @ ''!'' @ release_str (v_release v)) =
        (Some (v_epoch v), release_str (v_release v)) # ws"
      using m_epoch_some by blast
    show ?thesis
      unfolding version_matches_def base_version_prelude [OF assms]
      using ep by (simp add: bv rel m_qualifiers_Nil mk_version_plain)
  qed
qed

lemma version_parse_base:
  assumes "v_release v \<noteq> []"
  shows "version_parse (base_version v) =
     Version \<lparr> v_epoch = v_epoch v, v_release = v_release v,
       v_pre = None, v_post = None, v_dev = None, v_local = None \<rparr>"
  using version_matches_base [OF assms] by (auto simp: version_parse_def)

lemma version_matches_release:
  "v \<in> set (version_matches s) \<Longrightarrow> v_release v \<noteq> []"
  by (auto simp: version_matches_def m_release_def mk_version_def split_on_nonempty split: prod.splits)

lemma version_parse_release:
  "version_parse s = Version v \<Longrightarrow> v_release v \<noteq> []"
  using version_matches_release [of v s]
  by (auto simp: version_parse_def split: list.splits)

lemma normalise_base:
  "v_release v \<noteq> [] \<Longrightarrow>
   normalise v = \<lparr> v_epoch = v_epoch v, v_release = v_release v,
       v_pre = None, v_post = None, v_dev = None, v_local = None \<rparr>"
  by (simp add: normalise_def version_parse_base)

lemma normalise_parsed:
  "version_parse s = Version v \<Longrightarrow>
   normalise v = \<lparr> v_epoch = v_epoch v, v_release = v_release v,
       v_pre = None, v_post = None, v_dev = None, v_local = None \<rparr>"
  by (rule normalise_base) (rule version_parse_release)


section \<open>Properties of dictionaries, of the merge and of the parser\<close>

lemma map_of_dict_set: "map_of (dict_set k v d) = (map_of d)(k \<mapsto> v)"
  by (induction d) (auto simp: fun_eq_iff)

lemma keys_dict_set: "set (keys (dict_set k v d)) = insert k (set (keys d))"
proof -
  have "set (keys (dict_set k v d)) = dom (map_of (dict_set k v d))"
    by (simp add: keys_def dom_map_of_conv_image_fst)
  also have "\<dots> = insert k (dom (map_of d))" by (simp add: map_of_dict_set)
  also have "\<dots> = insert k (set (keys d))" by (simp add: keys_def dom_map_of_conv_image_fst)
  finally show ?thesis .
qed

lemma distinct_dict_set: "distinct (keys d) \<Longrightarrow> distinct (keys (dict_set k v d))"
proof (induction d)
  case Nil then show ?case by (simp add: keys_def)
next
  case (Cons a d)
  have "set (keys (dict_set k v d)) = insert k (set (keys d))" by (rule keys_dict_set)
  with Cons show ?case by (cases a) (auto simp: keys_def)
qed

lemma update_loop_other: "k \<notin> fst ` set new \<Longrightarrow> map_of (update_loop res new) k = map_of res k"
  by (induction res new rule: update_loop.induct) (auto simp: map_of_dict_set split: option.splits)

lemma update_loop_key:
  "distinct (map fst new) \<Longrightarrow> (k, v) \<in> set new \<Longrightarrow>
   map_of (update_loop res new) k =
     (case map_of res k of None \<Rightarrow> Some v | Some ov \<Rightarrow> if ver_gt v ov then Some v else Some ov)"
proof (induction res new rule: update_loop.induct)
  case (1 res)
  then show ?case by simp
next
  case (2 res k' v' new)
  show ?case
  proof (cases "k' = k")
    case True
    with 2 have v: "v' = v" and nk: "k \<notin> fst ` set new" by (auto simp: rev_image_eqI)
    show ?thesis using True v nk
      by (auto simp: update_loop_other map_of_dict_set split: option.splits)
  next
    case False
    with 2 show ?thesis by (auto simp: map_of_dict_set split: option.splits)
  qed
qed

lemma parse_loop_acc: "parse_loop vs res = res @ parsed_normalised vs"
  by (induction vs res rule: parse_loop.induct) (auto simp: parsed_normalised_def split: parsed.splits)

lemma tpv_eq: "try_parse_versions vs = sort_key cmpkey (parsed_normalised vs)"
  by (simp add: try_parse_versions_def parse_loop_acc)

lemma sorted_last_max:
  "sorted (map f xs) \<Longrightarrow> x \<in> set xs \<Longrightarrow> f x \<le> f (last xs)"
proof (induction xs)
  case Nil then show ?case by simp
next
  case (Cons a xs)
  then show ?case by (cases xs) auto
qed


section \<open>Properties of the adapters\<close>

lemma keys_simps:
  "keys [] = []" "keys ((k, v) # d) = k # keys d" "keys (d @ e) = keys d @ keys e"
  by (simp_all add: keys_def)

lemma in_keys: "(k, v) \<in> set d \<Longrightarrow> k \<in> set (keys d)"
  by (force simp: keys_def)

lemma wait_keys: "wait w aws = Inr done \<Longrightarrow> set (keys done) = set (keys aws) \<and> aws \<noteq> []"
  by (auto simp: wait_def keys_def split: if_splits)

lemma releases_loop_keys:
  "releases_loop field done res = Inr out \<Longrightarrow> set (keys out) \<subseteq> set (keys res) \<union> set (keys done)"
proof (induction "done" arbitrary: res out)
  case Nil
  then show ?case by simp
next
  case (Cons t "done")
  obtain name r where t: "t = (name, r)" by (cases t)
  from Cons.prems show ?case unfolding t
    by (auto split: sum.splits if_splits dest!: Cons.IH simp: keys_dict_set keys_simps)
qed

lemma aarch_loop_keys:
  "aarch_loop done res = Inr out \<Longrightarrow> set (keys out) \<subseteq> set (keys res) \<union> set (keys done)"
proof (induction "done" arbitrary: res out)
  case Nil
  then show ?case by simp
next
  case (Cons t "done")
  obtain name r where t: "t = (name, r)" by (cases t)
  from Cons.prems show ?case unfolding t
    by (auto split: sum.splits if_splits dest!: Cons.IH simp: keys_dict_set keys_simps)
qed

lemma nth_key: "i < length items \<Longrightarrow> fst (items ! i) \<in> set (keys items)"
  by (simp add: keys_def)

lemma aaur_loop_keys:
  "aaur_loop items i vs res = Inr out \<Longrightarrow> set (keys out) \<subseteq> set (keys res) \<union> set (keys items)"
proof (induction vs arbitrary: i res out)
  case Nil
  then show ?case by simp
next
  case (Cons v vs)
  from Cons.prems nth_key [of i items] show ?case
    by (auto split: sum.splits if_splits dest!: Cons.IH simp: keys_dict_set)
qed

lemma keys_concat_map:
  assumes "\<And>k v. (k, v) \<in> set xs \<Longrightarrow> set (keys (f (k, v))) \<subseteq> {k}"
  shows "set (keys (concat (map f xs))) \<subseteq> set (keys xs)"
  using assms
proof (induction xs)
  case Nil
  then show ?case by (simp add: keys_simps)
next
  case (Cons x xs)
  obtain k v where x: "x = (k, v)" by (cases x)
  from Cons.prems [of k v] have "set (keys (f (k, v))) \<subseteq> {k}" by (simp add: x)
  moreover have "set (keys (concat (map f xs))) \<subseteq> set (keys xs)"
    by (rule Cons.IH) (simp add: Cons.prems)
  ultimately show ?case by (auto simp: x keys_simps)
qed

lemma agithub_aws_names: "set (keys (agithub_aws w args pkgs type)) \<subseteq> set (keys pkgs)"
  unfolding agithub_aws_def
  by (rule keys_concat_map) (simp add: keys_simps fetch_def split: option.splits)

lemma agitlab_aws_names: "set (keys (agitlab_aws w args pkgs type)) \<subseteq> set (keys pkgs)"
  unfolding agitlab_aws_def
  by (rule keys_concat_map) (simp add: keys_simps fetch_def Let_def split: option.splits)

lemma aarch_aws_names: "keys (aarch_aws w pkgs) = keys pkgs"
  by (induction pkgs) (auto simp: aarch_aws_def keys_simps fetch_def)

lemma agit_collect_raises: "done \<noteq> [] \<Longrightarrow> \<exists>e. agit_collect done st = Inl e"
proof -
  assume "done \<noteq> []"
  then obtain n r rest where d: "done = (n, r) # rest" by (cases "done") auto
  obtain name vers where st: "st = (name, vers)" by (cases st)
  show ?thesis unfolding d st by (cases r) simp_all
qed

lemma agit_raises: "\<exists>e. agit args pkgs w = Inl e"
proof (cases "agit_requests w pkgs ([], None)")
  case (Inl e)
  then show ?thesis by (simp add: agit_def)
next
  case (Inr st)
  obtain aws vers0 where st: "st = (aws, vers0)" by (cases st)
  show ?thesis
  proof (cases "wait w aws")
    case (Inl e)
    with Inr st show ?thesis by (simp add: agit_def)
  next
    case w: (Inr "done")
    from wait_keys [OF w] have "done \<noteq> []" by (auto simp: keys_def)
    from agit_collect_raises [OF this]
    obtain e where "agit_collect done (if pkgs = [] then None else Some (fst (last pkgs)), vers0) = Inl e"
      by blast
    with Inr st w show ?thesis by (simp add: agit_def)
  qed
qed

lemma agithub_keys:
  assumes "agithub args pkgs type field w = Inr res"
  shows "set (keys res) \<subseteq> set (keys pkgs)"
proof -
  from assms obtain "done" where w: "wait w (agithub_aws w args pkgs type) = Inr done"
    and l: "releases_loop field done [] = Inr res"
    by (auto simp: agithub_def split: sum.splits)
  from releases_loop_keys [OF l] wait_keys [OF w] agithub_aws_names [of w args pkgs type]
  show ?thesis by (simp add: keys_simps)
qed

lemma agitlab_keys:
  assumes "agitlab args pkgs type field w = Inr res"
  shows "set (keys res) \<subseteq> set (keys pkgs)"
proof -
  from assms obtain "done" where w: "wait w (agitlab_aws w args pkgs type) = Inr done"
    and l: "releases_loop field done [] = Inr res"
    by (auto simp: agitlab_def split: sum.splits)
  from releases_loop_keys [OF l] wait_keys [OF w] agitlab_aws_names [of w args pkgs type]
  show ?thesis by (simp add: keys_simps)
qed

lemma aarch_keys: "aarch args pkgs w = Inr res \<Longrightarrow> set (keys res) \<subseteq> set (keys pkgs)"
  using aarch_aws_names [of w pkgs]
  by (auto simp: aarch_def keys_simps split: sum.splits dest!: wait_keys aarch_loop_keys)

lemma aaur_keys: "aaur args pkgs w = Inr res \<Longrightarrow> set (keys res) \<subseteq> set (keys pkgs)"
  by (auto simp: aaur_def keys_simps split: sum.splits dest!: aaur_loop_keys)

lemma agit_keys:
  assumes "agit args pkgs w = Inr res"
  shows "set (keys res) \<subseteq> set (keys pkgs)"
  using assms agit_raises [of args pkgs w] by auto






section \<open>Properties of the orchestrator\<close>

subsection \<open>The merge never lowers a value\<close>

lemma map_of_Some_key: "map_of d k = Some v \<Longrightarrow> k \<in> set (keys d)"
  by (auto simp: keys_def dest: map_of_SomeD intro: rev_image_eqI)

lemma never_lower_iff:
  "never_lower m1 m2 \<longleftrightarrow>
     (\<forall>k v. map_of m1 k = Some v \<longrightarrow> (\<exists>v'. map_of m2 k = Some v' \<and> ver_ge v' v))"
proof
  assume n: "never_lower m1 m2"
  show "\<forall>k v. map_of m1 k = Some v \<longrightarrow> (\<exists>v'. map_of m2 k = Some v' \<and> ver_ge v' v)"
  proof (intro allI impI)
    fix k v assume s: "map_of m1 k = Some v"
    then have "k \<in> set (keys m1)" by (rule map_of_Some_key)
    with n have "case map_of m1 k of None \<Rightarrow> True
        | Some v \<Rightarrow> (case map_of m2 k of None \<Rightarrow> False | Some v' \<Rightarrow> ver_ge v' v)"
      unfolding never_lower_def by (rule bspec)
    with s show "\<exists>v'. map_of m2 k = Some v' \<and> ver_ge v' v"
      by (cases "map_of m2 k") simp_all
  qed
next
  assume a: "\<forall>k v. map_of m1 k = Some v \<longrightarrow> (\<exists>v'. map_of m2 k = Some v' \<and> ver_ge v' v)"
  show "never_lower m1 m2"
    unfolding never_lower_def
  proof (rule ballI)
    fix k assume "k \<in> set (keys m1)"
    show "case map_of m1 k of None \<Rightarrow> True
        | Some v \<Rightarrow> (case map_of m2 k of None \<Rightarrow> False | Some v' \<Rightarrow> ver_ge v' v)"
    proof (cases "map_of m1 k")
      case None
      then show ?thesis by simp
    next
      case (Some v)
      with a obtain v' where "map_of m2 k = Some v'" "ver_ge v' v" by blast
      with Some show ?thesis by simp
    qed
  qed
qed

lemma ver_ge_refl: "ver_ge v v"
  by (simp add: ver_ge_def)

lemma ver_ge_trans: "ver_ge a b \<Longrightarrow> ver_ge b c \<Longrightarrow> ver_ge a c"
  by (simp add: ver_ge_def)

lemma ver_gt_ge: "ver_gt a b \<Longrightarrow> ver_ge a b"
  by (simp add: ver_gt_def ver_ge_def)


lemma never_lower_refl: "never_lower m m"
  by (auto simp: never_lower_iff ver_ge_refl)

lemma never_lower_trans: "never_lower a b \<Longrightarrow> never_lower b c \<Longrightarrow> never_lower a c"
  unfolding never_lower_iff by (meson ver_ge_trans)

lemma never_lower_dict_set:
  "(case map_of res k of None \<Rightarrow> True | Some ov \<Rightarrow> ver_ge v ov) \<Longrightarrow> never_lower res (dict_set k v res)"
  by (auto simp: never_lower_iff map_of_dict_set ver_ge_refl)

lemma update_loop_never_lower: "never_lower res (update_loop res new)"
proof (induction res new rule: update_loop.induct)
  case (1 res)
  show ?case by (simp add: never_lower_refl)
next
  case (2 res k v new)
  show ?case
  proof (cases "map_of res k")
    case None
    with 2 have "never_lower (dict_set k v res) (update_loop res ((k, v) # new))" by simp
    moreover have "never_lower res (dict_set k v res)"
      by (rule never_lower_dict_set) (simp add: None)
    ultimately show ?thesis by (blast intro: never_lower_trans)
  next
    case (Some ov)
    show ?thesis
    proof (cases "ver_gt v ov")
      case True
      with 2 Some have "never_lower (dict_set k v res) (update_loop res ((k, v) # new))" by simp
      moreover have "never_lower res (dict_set k v res)"
        by (rule never_lower_dict_set) (simp add: Some True ver_gt_ge)
      ultimately show ?thesis by (blast intro: never_lower_trans)
    next
      case False
      with 2 Some show ?thesis by simp
    qed
  qed
qed

lemma update_never_lower: "never_lower old (update old new)"
  by (simp add: update_def update_loop_never_lower)





lemma keys_update_loop: "set (keys (update_loop res new)) = set (keys res) \<union> set (keys new)"
  by (induction res new rule: update_loop.induct)
     (auto simp: keys_dict_set keys_simps split: option.splits dest: map_of_Some_key)

lemma keys_update: "set (keys (update old new)) = set (keys old) \<union> set (keys new)"
  by (simp add: update_def keys_update_loop)

subsection \<open>The trace of a run\<close>

lemma calls_traced:
  "r_calls (traced ph name query found vers w r) =
     r_calls r @ [\<lparr> c_phase = ph, c_source = name, c_query = keys query, c_found = found, c_vers = vers \<rparr>]"
  by (simp add: traced_def)

lemma chain_traced:
  assumes "chain r vers" "never_lower vers vers'"
  shows "chain (traced ph name query found vers' w r) vers'"
  using assms
  by (auto simp: chain_def calls_traced sorted_wrt_append never_lower_refl intro: never_lower_trans)

lemma chain_sorted: "chain r vers \<Longrightarrow> sorted_wrt never_lower (map c_vers (r_calls r))"
  by (simp add: chain_def)

text \<open>One call of a secondary source either raises or returns.\<close>

lemma get_secondary_source_cases:
  obtains (raised) e w' where
      "get_secondary_source args c s vers left r =
         (Inl e, traced Secondary (fst s) left (Inl e) vers w' r)"
  | (returned) new w' where
      "get_secondary_source args c s vers left r =
         (Inr (update vers new,
               if pyval_truthy (arg_trust_secondary args) then unresolved c (update vers new) else left),
          traced Secondary (fst s) left (Inr new) (update vers new) w' r)"
proof (cases "snd s args left (r_world r)")
  case (Pair out w')
  show ?thesis
  proof (cases out)
    case (Inl e)
    with Pair have "get_secondary_source args c s vers left r =
         (Inl e, traced Secondary (fst s) left (Inl e) vers w' r)"
      by (simp add: get_secondary_source_def)
    then show ?thesis by (rule raised)
  next
    case (Inr new)
    with Pair have "get_secondary_source args c s vers left r =
         (Inr (update vers new,
               if pyval_truthy (arg_trust_secondary args) then unresolved c (update vers new) else left),
          traced Secondary (fst s) left (Inr new) (update vers new) w' r)"
      by (simp add: get_secondary_source_def Let_def)
    then show ?thesis by (rule returned)
  qed
qed

lemma get_secondary_source_chain:
  assumes "chain r vers" "get_secondary_source args c s vers left r = (out, r')"
  shows "sorted_wrt never_lower (map c_vers (r_calls r')) \<and>
         (\<forall>vers' left'. out = Inr (vers', left') \<longrightarrow> chain r' vers' \<and> never_lower vers vers')"
proof (cases rule: get_secondary_source_cases [of args c s vers left r])
  case (raised e w')
  with assms(2) have "out = Inl e" "r' = traced Secondary (fst s) left (Inl e) vers w' r" by simp_all
  with chain_sorted [OF chain_traced [OF assms(1) never_lower_refl]] show ?thesis
    by simp
next
  case (returned new w')
  with assms(2) have "r' = traced Secondary (fst s) left (Inr new) (update vers new) w' r"
    and "\<exists>l. out = Inr (update vers new, l)" by auto
  moreover have ch: "chain (traced Secondary (fst s) left (Inr new) (update vers new) w' r) (update vers new)"
    using assms(1) update_never_lower by (rule chain_traced)
  ultimately show ?thesis
    using chain_sorted [OF ch] by (auto simp: update_never_lower)
qed

lemma secondary_loop_chain:
  "chain r vers \<Longrightarrow> secondary_loop args c ss vers left r = (out, r') \<Longrightarrow>
   sorted_wrt never_lower (map c_vers (r_calls r')) \<and>
   (\<forall>vers' left'. out = Inr (vers', left') \<longrightarrow> chain r' vers' \<and> never_lower vers vers')"
proof (induction ss arbitrary: vers left r)
  case Nil
  then show ?case by (auto simp: never_lower_refl dest: chain_sorted)
next
  case (Cons s ss)
  obtain o1 r1 where g: "get_secondary_source args c s vers left r = (o1, r1)" by (cases "get_secondary_source args c s vers left r")
  note st = get_secondary_source_chain [OF Cons.prems(1) g]
  show ?case
  proof (cases o1)
    case (Inl e)
    with g Cons.prems(2) st show ?thesis by auto
  next
    case (Inr p)
    obtain v1 l1 where p: "p = (v1, l1)" by (cases p)
    from st Inr p have c1: "chain r1 v1" and n1: "never_lower vers v1" by auto
    show ?thesis
    proof (cases "l1 = []")
      case True
      with g Inr p Cons.prems(2) c1 n1 show ?thesis by (auto dest: chain_sorted)
    next
      case False
      with g Inr p Cons.prems(2) have "secondary_loop args c ss v1 l1 r1 = (out, r')" by simp
      from Cons.IH [OF c1 this] n1 show ?thesis by (blast intro: never_lower_trans)
    qed
  qed
qed

lemma run_secondary_chain:
  assumes "chain r vers" "run_secondary sl args c vers asked left l r = (out, r')"
  shows "sorted_wrt never_lower (map c_vers (r_calls r')) \<and>
         (\<forall>vers' left'. out = Inr (vers', left') \<longrightarrow> chain r' vers' \<and> never_lower vers vers')"
proof (cases "left = []")
  case True
  with assms show ?thesis by (auto simp: run_secondary_def never_lower_refl dest: chain_sorted)
next
  case False
  with assms(2) have "secondary_loop args c (filter (\<lambda>x. l (fst x) asked) sl) vers left r = (out, r')"
    by (simp add: run_secondary_def)
  from secondary_loop_chain [OF assms(1) this] show ?thesis .
qed

lemma get_secondary_chain:
  assumes "chain r vers" "get_secondary sl args c vers asked left r = (out, r')"
  shows "sorted_wrt never_lower (map c_vers (r_calls r')) \<and>
         (\<forall>vers' left'. out = Inr (vers', left') \<longrightarrow> chain r' vers' \<and> never_lower vers vers')"
proof -
  obtain o1 r1 where g: "run_secondary sl args c vers asked left (\<lambda>name asked. name \<notin> set asked) r = (o1, r1)"
    by (cases "run_secondary sl args c vers asked left (\<lambda>name asked. name \<notin> set asked) r")
  note st = run_secondary_chain [OF assms(1) g]
  show ?thesis
  proof (cases o1)
    case (Inl e)
    with g assms(2) st show ?thesis by (auto simp: get_secondary_def)
  next
    case (Inr p)
    obtain v1 l1 where p: "p = (v1, l1)" by (cases p)
    from st Inr p have c1: "chain r1 v1" and n1: "never_lower vers v1" by auto
    from g Inr p assms(2)
    have "run_secondary sl args c v1 asked l1 (\<lambda>name asked. name \<in> set asked) r1 = (out, r')"
      by (simp add: get_secondary_def)
    from run_secondary_chain [OF c1 this] n1 show ?thesis by (blast intro: never_lower_trans)
  qed
qed

lemma primary_loop_chain:
  "chain r vers \<Longrightarrow> primary_loop srcs args groups vers asked r = (out, r') \<Longrightarrow>
   sorted_wrt never_lower (map c_vers (r_calls r')) \<and>
   (\<forall>vers' asked'. out = Inr (vers', asked') \<longrightarrow> chain r' vers' \<and> never_lower vers vers')"
proof (induction groups arbitrary: vers asked r)
  case Nil
  then show ?case by (auto simp: never_lower_refl dest: chain_sorted)
next
  case (Cons kg groups)
  obtain k g where kg: "kg = (k, g)" by (cases kg)
  show ?case
  proof (cases "map_of srcs k")
    case None
    with Cons.prems kg show ?thesis by (auto dest: chain_sorted)
  next
    case (Some s)
    obtain o1 w' where a: "s args (dict_of g) (r_world r) = (o1, w')" by (cases "s args (dict_of g) (r_world r)")
    show ?thesis
    proof (cases o1)
      case (Inl e)
      with Some a Cons.prems(2) kg
      have "r' = traced Primary k (dict_of g) (Inl e) vers w' r" "out = Inl e" by (simp_all add: Let_def)
      with chain_sorted [OF chain_traced [OF Cons.prems(1) never_lower_refl]] show ?thesis by simp
    next
      case (Inr new)
      let ?r1 = "traced Primary k (dict_of g) (Inr new) (update vers new) w' r"
      from Some a Inr Cons.prems(2) kg
      have "primary_loop srcs args groups (update vers new) (List.insert k asked) ?r1 = (out, r')"
        by (simp add: Let_def)
      from Cons.IH [OF chain_traced [OF Cons.prems(1) update_never_lower] this]
      show ?thesis using update_never_lower [of vers new] by (blast intro: never_lower_trans)
    qed
  qed
qed

lemma get_vers_chain:
  assumes "chain r []" "get_vers srcs sl args c r = (out, r')"
  shows "sorted_wrt never_lower (map c_vers (r_calls r')) \<and>
         (\<forall>vers' left'. out = Inr (vers', left') \<longrightarrow> chain r' vers')"
proof -
  let ?p = "if pyval_truthy (arg_primary args) then get_primary srcs args c [] r else (Inr ([], []), r)"
  obtain o1 r1 where g: "?p = (o1, r1)" by (cases ?p)
  have st: "sorted_wrt never_lower (map c_vers (r_calls r1)) \<and>
     (\<forall>vers' asked'. o1 = Inr (vers', asked') \<longrightarrow> chain r1 vers')"
  proof (cases "pyval_truthy (arg_primary args)")
    case True
    with g have "primary_loop srcs args (primary_groups c) [] [] r = (o1, r1)"
      by (simp add: get_primary_def)
    from primary_loop_chain [OF assms(1) this] show ?thesis by blast
  next
    case False
    with g assms(1) show ?thesis by (auto dest: chain_sorted)
  qed
  show ?thesis
  proof (cases o1)
    case (Inl e)
    with g assms(2) st show ?thesis by (auto simp: get_vers_def)
  next
    case (Inr p)
    obtain v1 a1 where p: "p = (v1, a1)" by (cases p)
    from st Inr p have c1: "chain r1 v1" by simp
    let ?left = "if pyval_truthy (arg_trust_primary args) then unresolved c v1 else c"
    let ?s = "if pyval_truthy (arg_secondary args) \<and> ?left \<noteq> []
              then get_secondary sl args c v1 a1 ?left r1 else (Inr (v1, ?left), r1)"
    obtain o2 r2 where g2: "?s = (o2, r2)" by (cases ?s)
    have st2: "sorted_wrt never_lower (map c_vers (r_calls r2)) \<and>
       (\<forall>vers' left'. o2 = Inr (vers', left') \<longrightarrow> chain r2 vers')"
    proof (cases "pyval_truthy (arg_secondary args) \<and> ?left \<noteq> []")
      case True
      with g2 have "get_secondary sl args c v1 a1 ?left r1 = (o2, r2)" by simp
      from get_secondary_chain [OF c1 this] show ?thesis by blast
    next
      case False
      with g2 c1 show ?thesis by (auto dest: chain_sorted)
    qed
    from assms(2) g Inr p g2 have "r' = r2 \<and> (case o2 of Inl e \<Rightarrow> out = Inl e
        | Inr (vers', left') \<Rightarrow> out = Inr (vers', join '', '' (keys left')))"
      by (auto simp: get_vers_def Let_def split: sum.splits prod.splits)
    with st2 show ?thesis by (auto split: sum.splits prod.splits)
  qed
qed

lemma get_vers_stages:
  assumes "get_vers srcs sl args c r = (out, r')"
    and "(if pyval_truthy (arg_primary args) then get_primary srcs args c [] r
          else (Inr ([], []), r)) = (Inr (vers, asked), r1)"
    and "(if pyval_truthy (arg_secondary args) \<and>
             (if pyval_truthy (arg_trust_primary args) then unresolved c vers else c) \<noteq> []
          then get_secondary sl args c vers asked
                 (if pyval_truthy (arg_trust_primary args) then unresolved c vers else c) r1
          else (Inr (vers, if pyval_truthy (arg_trust_primary args) then unresolved c vers else c), r1))
         = (o2, r2)"
  shows "r' = r2 \<and>
         out = (case o2 of Inl e \<Rightarrow> Inl e
                | Inr p \<Rightarrow> Inr (fst p, join '', '' (keys (snd p))))"
proof -
  have "get_vers srcs sl args c r =
     (case (o2, r2) of
        (Inl e, r2) \<Rightarrow> (Inl e, r2)
      | (Inr (vers', left'), r2) \<Rightarrow> (Inr (vers', join '', '' (keys left')), r2))"
    unfolding get_vers_def assms(2) by (simp only: Let_def prod.case sum.case assms(3))
  with assms(1) show ?thesis
    by (cases o2) (simp_all split: prod.splits)
qed

lemma avoids_traced_secondary:
  "avoids P r \<Longrightarrow> P \<notin> set (keys query) \<Longrightarrow> avoids P (traced Secondary name query found vers w r)"
  by (simp add: avoids_def calls_traced)

lemma avoids_traced_primary:
  "avoids P r \<Longrightarrow> avoids P (traced Primary name query found vers w r)"
  by (simp add: avoids_def calls_traced)

lemma unresolved_Nil: "unresolved [] vers = []"
  by (simp add: unresolved_def)

lemma unresolved_Cons:
  "unresolved ((k, v) # c) vers =
     (if k \<in> set (keys vers) then unresolved c vers else (k, v) # unresolved c vers)"
  by (simp add: unresolved_def)

lemma keys_unresolved: "set (keys (unresolved c vers)) = set (keys c) - set (keys vers)"
proof (induction c)
  case Nil
  show ?case by (simp add: unresolved_Nil keys_simps)
next
  case (Cons x c)
  obtain k v where x: "x = (k, v)" by (cases x)
  show ?case
  proof (cases "k \<in> set (keys vers)")
    case True
    with Cons show ?thesis unfolding x by (simp add: unresolved_Cons keys_simps; blast?)
  next
    case False
    with Cons show ?thesis unfolding x by (simp add: unresolved_Cons keys_simps; blast?)
  qed
qed

lemma get_secondary_source_avoids:
  assumes "avoids P r" "P \<notin> set (keys left)" "P \<in> set (keys vers)"
    "get_secondary_source args c s vers left r = (out, r')"
  shows "avoids P r' \<and>
         (\<forall>vers' left'. out = Inr (vers', left') \<longrightarrow> P \<notin> set (keys left') \<and> P \<in> set (keys vers'))"
proof (cases rule: get_secondary_source_cases [of args c s vers left r])
  case (raised e w')
  with assms(4) have "out = Inl e" "r' = traced Secondary (fst s) left (Inl e) vers w' r" by simp_all
  with avoids_traced_secondary [OF assms(1,2)] show ?thesis by simp
next
  case (returned new w')
  with assms(4) have r': "r' = traced Secondary (fst s) left (Inr new) (update vers new) w' r"
    and out: "out = Inr (update vers new,
        if pyval_truthy (arg_trust_secondary args) then unresolved c (update vers new) else left)"
    by simp_all
  have "avoids P r'" unfolding r' using assms(1,2) by (rule avoids_traced_secondary)
  with out assms(2,3) show ?thesis by (auto simp: keys_update keys_unresolved)
qed

lemma secondary_loop_avoids:
  "avoids P r \<Longrightarrow> P \<notin> set (keys left) \<Longrightarrow> P \<in> set (keys vers) \<Longrightarrow>
   secondary_loop args c ss vers left r = (out, r') \<Longrightarrow>
   avoids P r' \<and>
   (\<forall>vers' left'. out = Inr (vers', left') \<longrightarrow> P \<notin> set (keys left') \<and> P \<in> set (keys vers'))"
proof (induction ss arbitrary: vers left r)
  case Nil
  then show ?case by auto
next
  case (Cons s ss)
  obtain o1 r1 where g: "get_secondary_source args c s vers left r = (o1, r1)"
    by (cases "get_secondary_source args c s vers left r")
  note st = get_secondary_source_avoids [OF Cons.prems(1,2,3) g]
  show ?case
  proof (cases o1)
    case (Inl e)
    with g Cons.prems(4) st show ?thesis by auto
  next
    case (Inr p)
    obtain v1 l1 where p: "p = (v1, l1)" by (cases p)
    from st Inr p have a1: "avoids P r1" and l1: "P \<notin> set (keys l1)" and v1: "P \<in> set (keys v1)"
      by auto
    show ?thesis
    proof (cases "l1 = []")
      case True
      with g Inr p Cons.prems(4) a1 l1 v1 show ?thesis by auto
    next
      case False
      with g Inr p Cons.prems(4) have "secondary_loop args c ss v1 l1 r1 = (out, r')" by simp
      from Cons.IH [OF a1 l1 v1 this] show ?thesis .
    qed
  qed
qed

lemma run_secondary_avoids:
  assumes "avoids P r" "P \<notin> set (keys left)" "P \<in> set (keys vers)"
    "run_secondary sl args c vers asked left l r = (out, r')"
  shows "avoids P r' \<and>
         (\<forall>vers' left'. out = Inr (vers', left') \<longrightarrow> P \<notin> set (keys left') \<and> P \<in> set (keys vers'))"
proof (cases "left = []")
  case True
  with assms show ?thesis by (auto simp: run_secondary_def)
next
  case False
  with assms(4) have "secondary_loop args c (filter (\<lambda>x. l (fst x) asked) sl) vers left r = (out, r')"
    by (simp add: run_secondary_def)
  from secondary_loop_avoids [OF assms(1,2,3) this] show ?thesis .
qed

lemma get_secondary_avoids:
  assumes "avoids P r" "P \<notin> set (keys left)" "P \<in> set (keys vers)"
    "get_secondary sl args c vers asked left r = (out, r')"
  shows "avoids P r'"
proof -
  obtain o1 r1 where g: "run_secondary sl args c vers asked left (\<lambda>name asked. name \<notin> set asked) r = (o1, r1)"
    by (cases "run_secondary sl args c vers asked left (\<lambda>name asked. name \<notin> set asked) r")
  note st = run_secondary_avoids [OF assms(1,2,3) g]
  show ?thesis
  proof (cases o1)
    case (Inl e)
    with g assms(4) st show ?thesis by (auto simp: get_secondary_def)
  next
    case (Inr p)
    obtain v1 l1 where p: "p = (v1, l1)" by (cases p)
    from st Inr p have a1: "avoids P r1" and l1: "P \<notin> set (keys l1)" and v1: "P \<in> set (keys v1)"
      by auto
    from g Inr p assms(4)
    have "run_secondary sl args c v1 asked l1 (\<lambda>name asked. name \<in> set asked) r1 = (out, r')"
      by (simp add: get_secondary_def)
    from run_secondary_avoids [OF a1 l1 v1 this] show ?thesis by simp
  qed
qed

lemma primary_loop_avoids:
  "avoids P r \<Longrightarrow> primary_loop srcs args groups vers asked r = (out, r') \<Longrightarrow> avoids P r'"
proof (induction groups arbitrary: vers asked r)
  case Nil
  then show ?case by simp
next
  case (Cons kg groups)
  obtain k g where kg: "kg = (k, g)" by (cases kg)
  show ?case
  proof (cases "map_of srcs k")
    case None
    with Cons.prems kg show ?thesis by simp
  next
    case (Some s)
    obtain o1 w' where a: "s args (dict_of g) (r_world r) = (o1, w')"
      by (cases "s args (dict_of g) (r_world r)")
    show ?thesis
    proof (cases o1)
      case (Inl e)
      with Some a Cons.prems(2) kg
      have "r' = traced Primary k (dict_of g) (Inl e) vers w' r" by (simp add: Let_def)
      with avoids_traced_primary [OF Cons.prems(1)] show ?thesis by simp
    next
      case (Inr new)
      let ?r1 = "traced Primary k (dict_of g) (Inr new) (update vers new) w' r"
      from Some a Inr Cons.prems(2) kg
      have "primary_loop srcs args groups (update vers new) (List.insert k asked) ?r1 = (out, r')"
        by (simp add: Let_def)
      from Cons.IH [OF avoids_traced_primary [OF Cons.prems(1)] this] show ?thesis .
    qed
  qed
qed

lemma avoids_start: "avoids P (start w)"
  by (simp add: avoids_def start_def)

lemma chain_start: "chain (start w) []"
  by (simp add: chain_def start_def)













section \<open>The claims about the merge and the parser\<close>

text \<open>
  C1.  The merge: a key of the new mapping that the old mapping lacks is inserted with
  the new value; a key that the old mapping has takes the new value if and only if the new
  value is strictly greater than the old one, so that a tie keeps the old value.  (The new
  mapping is a dictionary: its keys are distinct.)
\<close>

theorem update_merge_policy:
  assumes "distinct (keys new)" and "(k, v) \<in> set new"
  shows "map_of (update old new) k =
           (case map_of old k of
              None \<Rightarrow> Some v
            | Some ov \<Rightarrow> if ver_gt v ov then Some v else Some ov)"
  using assms unfolding update_def keys_def by (rule update_loop_key)

theorem update_merge_policy_witness:
  "distinct (keys [(''a'', release_only [1, 0, 0]), (''b'', release_only [2]), (''c'', release_only [3])]) \<and>
   (''a'', release_only [1, 0, 0]) \<in> set [(''a'', release_only [1, 0, 0]), (''b'', release_only [2]), (''c'', release_only [3])] \<and>
   map_of (update [(''a'', release_only [1, 0]), (''b'', release_only [1])]
                  [(''a'', release_only [1, 0, 0]), (''b'', release_only [2]), (''c'', release_only [3])]) ''a''
     = Some (release_only [1, 0])"
  using update_merge_policy [of "[(''a'', release_only [1, 0, 0]), (''b'', release_only [2]), (''c'', release_only [3])]"
      "''a''" "release_only [1, 0, 0]" "[(''a'', release_only [1, 0]), (''b'', release_only [1])]"]
  by (simp add: keys_def ver_gt_def cmpkey_def release_only_def strip_trailing_zeros_def)

text \<open>The example of the specification.\<close>

lemma try_parse_example:
  "try_parse_versions [''1.0.0'', ''1.2.0'', ''0.9.0''] =
     [release_only [0, 9, 0], release_only [1, 0, 0], release_only [1, 2, 0]]"
  by code_simp

text \<open>
  C5.  For every sequence of raw strings the parser returns exactly the records that
  parsed, normalised, in ascending order (a stable sort, so equal records keep their
  relative order), and the last element, the "latest", is not below any other.  On
  \<^verbatim>\<open>["1.0.0", "1.2.0", "0.9.0"]\<close> the result is 0.9.0, 1.0.0, 1.2.0 and the latest is 1.2.0.
\<close>

theorem try_parse_versions_sorted:
  "try_parse_versions versions = sort_key cmpkey (parsed_normalised versions) \<and>
   sorted (map cmpkey (try_parse_versions versions)) \<and>
   mset (try_parse_versions versions) = mset (parsed_normalised versions) \<and>
   (\<forall>v \<in> set (try_parse_versions versions). ver_ge (last (try_parse_versions versions)) v) \<and>
   try_parse_versions [''1.0.0'', ''1.2.0'', ''0.9.0''] =
     [release_only [0, 9, 0], release_only [1, 0, 0], release_only [1, 2, 0]] \<and>
   last (try_parse_versions [''1.0.0'', ''1.2.0'', ''0.9.0'']) = release_only [1, 2, 0]"
proof -
  have sorted: "sorted (map cmpkey (try_parse_versions versions))"
    by (simp add: tpv_eq)
  have "\<forall>v \<in> set (try_parse_versions versions). ver_ge (last (try_parse_versions versions)) v"
    unfolding ver_ge_def using sorted_last_max [OF sorted] by blast
  then show ?thesis
    using sorted by (simp add: tpv_eq [symmetric] try_parse_example) (simp add: tpv_eq)
qed


theorem try_parse_versions_sorted_witness:
  "release_only [0, 9] \<in> set (try_parse_versions [''v1.0'', ''junk'', ''1.2.0rc1'', ''0.9'']) \<and>
   ver_ge (last (try_parse_versions [''v1.0'', ''junk'', ''1.2.0rc1'', ''0.9''])) (release_only [0, 9]) \<and>
   last (try_parse_versions [''v1.0'', ''junk'', ''1.2.0rc1'', ''0.9'']) = release_only [1, 2, 0]"
proof -
  have e: "try_parse_versions [''v1.0'', ''junk'', ''1.2.0rc1'', ''0.9''] =
      [release_only [0, 9], release_only [1, 0], release_only [1, 2, 0]]"
    by code_simp
  have m: "release_only [0, 9] \<in> set (try_parse_versions [''v1.0'', ''junk'', ''1.2.0rc1'', ''0.9''])"
    unfolding e by simp
  with try_parse_versions_sorted [of "[''v1.0'', ''junk'', ''1.2.0rc1'', ''0.9'']"]
  have "ver_ge (last (try_parse_versions [''v1.0'', ''junk'', ''1.2.0rc1'', ''0.9''])) (release_only [0, 9])"
    by blast
  with m show ?thesis by (simp add: e)
qed

text \<open>
  C6 as stated fails: after the normalisation the pre-release \<^verbatim>\<open>1.2.3rc1\<close> is not below
  the release \<^verbatim>\<open>1.2.3\<close>.
\<close>

theorem prerelease_below_release_counterexample:
  "\<not> ver_lt (hd (try_parse_versions [''1.2.3rc1''])) (hd (try_parse_versions [''1.2.3'']))"
  by code_simp

lemma parsed_normalised_plain:
  "v \<in> set (parsed_normalised versions) \<Longrightarrow>
   v_pre v = None \<and> v_post v = None \<and> v_dev v = None \<and> v_local v = None"
  by (auto simp: parsed_normalised_def normalise_parsed split: parsed.splits)

lemma try_parse_single:
  "version_parse (strip_v a) = Version va \<Longrightarrow>
   try_parse_versions [a] =
     [\<lparr> v_epoch = v_epoch va, v_release = v_release va,
        v_pre = None, v_post = None, v_dev = None, v_local = None \<rparr>]"
  by (simp add: try_parse_versions_def normalise_parsed)

lemma prerelease_unnormalised:
  "version_parse ''1.2.3rc1'' = Version ((release_only [1, 2, 3]) \<lparr> v_pre := Some (''rc'', 1) \<rparr>) \<and>
   version_parse ''1.2.3'' = Version (release_only [1, 2, 3]) \<and>
   ver_lt ((release_only [1, 2, 3]) \<lparr> v_pre := Some (''rc'', 1) \<rparr>) (release_only [1, 2, 3])"
  by code_simp

text \<open>
  C6, amended.  The normalisation of the parser keeps the base version, that is the epoch
  and the release segments: every record it returns has no pre-release, post-release,
  development or local part, and two raw strings with the same epoch and release give the
  same record.  So \<^verbatim>\<open>1.2.3rc1\<close> and \<^verbatim>\<open>1.2.3\<close> normalise to the same record and
  neither is below the other; it is before the normalisation that the order of versions
  places \<^verbatim>\<open>1.2.3rc1\<close> strictly below \<^verbatim>\<open>1.2.3\<close>.
\<close>

theorem normalisation_keeps_release_only:
  "(\<forall>v \<in> set (try_parse_versions versions).
      v_pre v = None \<and> v_post v = None \<and> v_dev v = None \<and> v_local v = None) \<and>
   (version_parse (strip_v a) = Version va \<and> version_parse (strip_v b) = Version vb \<and>
    v_epoch va = v_epoch vb \<and> v_release va = v_release vb \<longrightarrow>
      try_parse_versions [a] = try_parse_versions [b]) \<and>
   try_parse_versions [''1.2.3rc1''] = try_parse_versions [''1.2.3''] \<and>
   \<not> ver_lt (hd (try_parse_versions [''1.2.3rc1''])) (hd (try_parse_versions [''1.2.3''])) \<and>
   \<not> ver_lt (hd (try_parse_versions [''1.2.3''])) (hd (try_parse_versions [''1.2.3rc1''])) \<and>
   version_parse ''1.2.3rc1'' = Version ((release_only [1, 2, 3]) \<lparr> v_pre := Some (''rc'', 1) \<rparr>) \<and>
   version_parse ''1.2.3'' = Version (release_only [1, 2, 3]) \<and>
   ver_lt ((release_only [1, 2, 3]) \<lparr> v_pre := Some (''rc'', 1) \<rparr>) (release_only [1, 2, 3])"
proof -
  have plain: "\<forall>v \<in> set (try_parse_versions versions).
      v_pre v = None \<and> v_post v = None \<and> v_dev v = None \<and> v_local v = None"
    using parsed_normalised_plain by (simp add: tpv_eq)
  have same: "version_parse (strip_v a) = Version va \<and> version_parse (strip_v b) = Version vb \<and>
    v_epoch va = v_epoch vb \<and> v_release va = v_release vb \<longrightarrow>
      try_parse_versions [a] = try_parse_versions [b]"
    by (simp add: try_parse_single)
  have eq: "try_parse_versions [''1.2.3rc1''] = try_parse_versions [''1.2.3'']"
    by code_simp
  have nlt: "\<not> ver_lt (hd (try_parse_versions [''1.2.3''])) (hd (try_parse_versions [''1.2.3'']))"
    by (simp add: ver_lt_def)
  from plain same eq nlt prerelease_unnormalised show ?thesis by simp
qed

theorem normalisation_keeps_release_only_witness:
  "release_only [1, 2, 3] \<in> set (try_parse_versions [''1.2.3.post4'', ''x'']) \<and>
   v_post (release_only [1, 2, 3]) = None \<and>
   version_parse (strip_v ''v1.2.3+build5'') =
     Version ((release_only [1, 2, 3]) \<lparr> v_local := Some [LStr ''build5''] \<rparr>) \<and>
   version_parse (strip_v ''1.2.3'') = Version (release_only [1, 2, 3]) \<and>
   try_parse_versions [''v1.2.3+build5''] = try_parse_versions [''1.2.3'']"
proof -
  have m: "release_only [1, 2, 3] \<in> set (try_parse_versions [''1.2.3.post4'', ''x''])"
    by code_simp
  have a: "version_parse (strip_v ''v1.2.3+build5'') =
     Version ((release_only [1, 2, 3]) \<lparr> v_local := Some [LStr ''build5''] \<rparr>)"
    by code_simp
  have b: "version_parse (strip_v ''1.2.3'') = Version (release_only [1, 2, 3])"
    by code_simp
  from normalisation_keeps_release_only [of "[''1.2.3.post4'', ''x'']" "''v1.2.3+build5''"
      "(release_only [1, 2, 3]) \<lparr> v_local := Some [LStr ''build5''] \<rparr>" "''1.2.3''" "release_only [1, 2, 3]"]
    m a b
  show ?thesis by (simp add: release_only_def)
qed


section \<open>The claims about the adapters and the options\<close>




text \<open>
  C8 fails on the code.  One package with an https remote: the request is made, and the
  adapter raises at \<^verbatim>\<open>r.text.splitlines()\<close> instead of returning the latest tag of the
  package.  No input makes \<^verbatim>\<open>agit\<close> return a mapping.
\<close>

theorem agit_raises_for_http_remote:
  "agit no_options git_example_pkgs git_example_world = Inl AttributeError \<and>
   (\<forall>args pkgs w. \<exists>e. agit args pkgs w = Inl e)"
proof -
  have "agit no_options git_example_pkgs git_example_world = Inl AttributeError"
    by code_simp
  with agit_raises show ?thesis by blast
qed

text \<open>Reading the options.\<close>

lemma unknown_key_Some:
  "unknown_key ks a = Some k \<Longrightarrow> k \<in> set ks \<and> k \<notin> set (keys a)"
  by (induction ks) (auto split: if_splits)

lemma unknown_key_None:
  "unknown_key ks a = None \<Longrightarrow> set ks \<subseteq> set (keys a)"
  by (induction ks) (auto split: if_splits)

lemma keys_kwargs: "keys (kwargs opts) = option_names"
  by (simp add: kwargs_def keys_def option_names_def)

text \<open>
  C9.  When the options table of the document has a key that is none of the eight option
  names, \<^verbatim>\<open>read_config\<close> raises \<^verbatim>\<open>KeyError\<close> for such a key and \<^verbatim>\<open>cli\<close> ends with that
  error in the run it started from: no adapter has been called and the world is
  untouched.
\<close>

theorem unknown_option_is_fatal:
  assumes "d_config doc = Some jc" and "k \<in> set (keys jc)" and "k \<notin> set option_names"
  shows "\<exists>k'. k' \<in> set (keys jc) \<and> k' \<notin> set option_names \<and>
           read_config (kwargs opts) jc = Inl (KeyError k') \<and>
           cli srcs sl opts doc r = (Inl (KeyError k'), r)"
proof -
  from assms(2,3) have "unknown_key (keys jc) (kwargs opts) \<noteq> None"
    using unknown_key_None [of "keys jc" "kwargs opts"] by (auto simp: keys_kwargs)
  then obtain k' where u: "unknown_key (keys jc) (kwargs opts) = Some k'" by auto
  from unknown_key_Some [OF u] have "k' \<in> set (keys jc)" "k' \<notin> set option_names"
    by (simp_all add: keys_kwargs)
  moreover from u have rc: "read_config (kwargs opts) jc = Inl (KeyError k')"
    by (simp add: read_config_def)
  moreover from rc assms(1) have "cli srcs sl opts doc r = (Inl (KeyError k'), r)"
    by (simp add: cli_def)
  ultimately show ?thesis by blast
qed

theorem unknown_option_is_fatal_witness:
  "d_config \<lparr> d_before = [(''x'', [])],
              d_config = Some [(''quiet'', PBool True), (''colour'', PBool True)],
              d_after = [] \<rparr> = Some [(''quiet'', PBool True), (''colour'', PBool True)] \<and>
   ''colour'' \<in> set (keys [(''quiet'', PBool True), (''colour'', PBool True)]) \<and>
   ''colour'' \<notin> set option_names \<and>
   cli sources sources_list no_cli_options
     \<lparr> d_before = [(''x'', [])],
       d_config = Some [(''quiet'', PBool True), (''colour'', PBool True)],
       d_after = [] \<rparr> (start aur_example_world)
     = (Inl (KeyError ''colour''), start aur_example_world)"
proof -
  let ?jc = "[(''quiet'', PBool True), (''colour'', PBool True)]"
  let ?doc = "\<lparr> d_before = [(''x'', [])], d_config = Some ?jc, d_after = [] \<rparr> :: document"
  have a: "d_config ?doc = Some ?jc" by simp
  have b: "''colour'' \<in> set (keys ?jc)" by (simp add: keys_def)
  have c: "''colour'' \<notin> set option_names" by (simp add: option_names_def)
  from unknown_option_is_fatal [OF a b c, of no_cli_options sources sources_list "start aur_example_world"]
  obtain k' where k': "k' \<in> set (keys ?jc)" "k' \<notin> set option_names"
    and r: "cli sources sources_list no_cli_options ?doc (start aur_example_world)
              = (Inl (KeyError k'), start aur_example_world)"
    by blast
  from k' have "k' = ''colour''" by (auto simp: keys_def option_names_def)
  with a b c r show ?thesis by simp
qed

text \<open>
  C10.  Every key of the mapping that an adapter returns is a key of the packages it was
  given; this holds for the five coroutines and for every entry of \<^verbatim>\<open>sources\<close>
  (\<^verbatim>\<open>agit\<close> returns no mapping at all).
\<close>

theorem adapters_keep_to_their_input:
  "(agithub args pkgs type field w = Inr res \<longrightarrow> set (keys res) \<subseteq> set (keys pkgs)) \<and>
   (agitlab args pkgs type field w = Inr res \<longrightarrow> set (keys res) \<subseteq> set (keys pkgs)) \<and>
   (aarch args pkgs w = Inr res \<longrightarrow> set (keys res) \<subseteq> set (keys pkgs)) \<and>
   (aaur args pkgs w = Inr res \<longrightarrow> set (keys res) \<subseteq> set (keys pkgs)) \<and>
   (agit args pkgs w = Inr res \<longrightarrow> set (keys res) \<subseteq> set (keys pkgs)) \<and>
   (\<forall>s \<in> set sources. \<forall>w'. snd s args pkgs w = (Inr res, w') \<longrightarrow> set (keys res) \<subseteq> set (keys pkgs))"
proof -
  have "set (keys res) \<subseteq> set (keys pkgs)" if "s \<in> set sources" "snd s args pkgs w = (Inr res, w')" for s w'
    using that
    by (auto simp: sources_def sources_list_def github_def github_tags_def gitlab_def gitlab_tags_def
        arch_def aur_def git_def)
       (blast dest: agithub_keys agitlab_keys aarch_keys aaur_keys agit_keys)+
  then show ?thesis
    by (intro conjI impI ballI allI)
       (erule agithub_keys agitlab_keys aarch_keys aaur_keys agit_keys, assumption?)+
qed

theorem adapters_keep_to_their_input_witness:
  "agithub no_options [(''q'', [(''github'', ''o/q''), (''gitlab'', ''g/q'')])] ''releases'' ''tag_name''
     run_example_world = Inr [(''q'', release_only [2, 0])] \<and>
   set (keys [(''q'', release_only [2, 0])]) \<subseteq>
     set (keys ([(''q'', [(''github'', ''o/q''), (''gitlab'', ''g/q'')])] :: catalog)) \<and>
   aaur no_options [(''x'', []), (''y'', [])] aur_example_world = Inr [(''y'', release_only [2, 0])] \<and>
   set (keys [(''y'', release_only [2, 0])]) \<subseteq> set (keys ([(''x'', []), (''y'', [])] :: catalog))"
proof -
  let ?q = "[(''q'', [(''github'', ''o/q''), (''gitlab'', ''g/q'')])] :: catalog"
  let ?xy = "[(''x'', []), (''y'', [])] :: catalog"
  have g: "agithub no_options ?q ''releases'' ''tag_name'' run_example_world = Inr [(''q'', release_only [2, 0])]"
    by code_simp
  have a: "aaur no_options ?xy aur_example_world = Inr [(''y'', release_only [2, 0])]"
    by code_simp
  from adapters_keep_to_their_input [of no_options ?q "''releases''" "''tag_name''" run_example_world
      "[(''q'', release_only [2, 0])]"] g
  have kg: "set (keys [(''q'', release_only [2, 0])]) \<subseteq> set (keys ?q)" by blast
  from adapters_keep_to_their_input [of no_options ?xy _ _ aur_example_world
      "[(''y'', release_only [2, 0])]"] a
  have ka: "set (keys [(''y'', release_only [2, 0])]) \<subseteq> set (keys ?xy)" by blast
  from g kg a ka show ?thesis by simp
qed

section \<open>The claims about the orchestrator\<close>

text \<open>
  C2.  The merge is monotone: every name of the old mapping is a name of the merged
  mapping, with a value greater than or equal to the old one.  Over a whole run of
  \<^verbatim>\<open>get_vers\<close>, started with an empty trace, the successive values of the resolved map
  never decrease: each recorded value is nowhere lower than the ones recorded before it,
  and the resolved map that is returned is nowhere lower than any recorded value.
\<close>

theorem resolved_map_never_decreases:
  "(\<forall>k v. map_of old k = Some v \<longrightarrow> (\<exists>v'. map_of (update old new) k = Some v' \<and> ver_ge v' v)) \<and>
   (get_vers srcs sl args c (start w) = (out, r) \<longrightarrow>
      sorted_wrt never_lower (map c_vers (r_calls r)) \<and>
      (\<forall>vers left. out = Inr (vers, left) \<longrightarrow>
         (\<forall>cl \<in> set (r_calls r). never_lower (c_vers cl) vers)))"
proof -
  have a: "\<forall>k v. map_of old k = Some v \<longrightarrow> (\<exists>v'. map_of (update old new) k = Some v' \<and> ver_ge v' v)"
    using update_never_lower [of old new] by (simp only: never_lower_iff)
  have b: "sorted_wrt never_lower (map c_vers (r_calls r)) \<and>
      (\<forall>vers left. out = Inr (vers, left) \<longrightarrow>
         (\<forall>cl \<in> set (r_calls r). never_lower (c_vers cl) vers))"
    if g: "get_vers srcs sl args c (start w) = (out, r)"
  proof -
    from get_vers_chain [OF chain_start g]
    have s: "sorted_wrt never_lower (map c_vers (r_calls r))"
      and c: "\<forall>vers' left'. out = Inr (vers', left') \<longrightarrow> chain r vers'" by blast+
    have "\<forall>cl \<in> set (r_calls r). never_lower (c_vers cl) vers" if "out = Inr (vers, left)" for vers left
    proof -
      from c that have "chain r vers" by blast
      then show ?thesis by (simp add: chain_def)
    qed
    with s show ?thesis by blast
  qed
  from a b show ?thesis by blast
qed

theorem resolved_map_never_decreases_witness:
  "map_of [(''q'', release_only [2, 0])] ''q'' = Some (release_only [2, 0]) \<and>
   (\<exists>v'. map_of (update [(''q'', release_only [2, 0])] [(''q'', release_only [2, 1])]) ''q'' = Some v' \<and>
      ver_ge v' (release_only [2, 0])) \<and>
   fst (get_vers sources sources_list untrusting_options run_example_catalog (start run_example_world)) =
     Inr ([(''p'', release_only [1, 0]), (''q'', release_only [2, 1])], ''q'') \<and>
   map c_vers (r_calls (snd (get_vers sources sources_list untrusting_options run_example_catalog
       (start run_example_world)))) =
     [[(''p'', release_only [1, 0])],
      [(''p'', release_only [1, 0]), (''q'', release_only [2, 0])],
      [(''p'', release_only [1, 0]), (''q'', release_only [2, 1])],
      [(''p'', release_only [1, 0]), (''q'', release_only [2, 1])],
      [(''p'', release_only [1, 0]), (''q'', release_only [2, 1])]] \<and>
   (\<exists>v'. map_of [(''p'', release_only [1, 0]), (''q'', release_only [2, 1])] ''q'' = Some v' \<and>
      ver_ge v' (release_only [2, 0]))"
proof -
  let ?G = "get_vers sources sources_list untrusting_options run_example_catalog (start run_example_world)"
  let ?mid = "[(''p'', release_only [1, 0]), (''q'', release_only [2, 0])]"
  let ?final = "[(''p'', release_only [1, 0]), (''q'', release_only [2, 1])]"
  have f: "fst ?G = Inr (?final, ''q'')" by code_simp
  have t: "map c_vers (r_calls (snd ?G)) =
     [[(''p'', release_only [1, 0])], ?mid, ?final, ?final, ?final]" by code_simp
  have g: "?G = (Inr (?final, ''q''), snd ?G)" using f by (metis prod.collapse)
  have m: "map_of [(''q'', release_only [2, 0])] ''q'' = Some (release_only [2, 0])" by simp
  note th = resolved_map_never_decreases [of "[(''q'', release_only [2, 0])]" "[(''q'', release_only [2, 1])]"
      sources sources_list untrusting_options run_example_catalog run_example_world
      "Inr (?final, ''q'')" "snd ?G"]
  from th m have u: "\<exists>v'. map_of (update [(''q'', release_only [2, 0])] [(''q'', release_only [2, 1])]) ''q'' = Some v' \<and>
      ver_ge v' (release_only [2, 0])" by blast
  from th g have a: "\<forall>cl \<in> set (r_calls (snd ?G)). never_lower (c_vers cl) ?final" by blast
  have "?mid \<in> set (map c_vers (r_calls (snd ?G)))" unfolding t by simp
  then obtain cl where "cl \<in> set (r_calls (snd ?G))" "c_vers cl = ?mid" by auto
  with a have "never_lower ?mid ?final" by auto
  moreover have "map_of ?mid ''q'' = Some (release_only [2, 0])" by simp
  ultimately have l: "\<exists>v'. map_of ?final ''q'' = Some v' \<and> ver_ge v' (release_only [2, 0])"
    unfolding never_lower_iff by blast
  from m u f t l show ?thesis by blast
qed

text \<open>
  C3.  When the primary phase is enabled, \<^verbatim>\<open>trust_primary\<close> is enabled and the primary
  phase returns a resolved map that has the package \<open>P\<close>, then no adapter call of the
  secondary phase has \<open>P\<close> among the packages it is given, in the whole run and also
  when the run ends with an exception.
\<close>

theorem trusted_primary_not_asked_again:
  assumes "pyval_truthy (arg_primary args)" and "pyval_truthy (arg_trust_primary args)"
    and "get_primary srcs args c [] (start w) = (Inr (vers, asked), r1)"
    and "P \<in> set (keys vers)"
    and "get_vers srcs sl args c (start w) = (out, r)"
  shows "\<forall>cl \<in> set (r_calls r). c_phase cl = Secondary \<longrightarrow> P \<notin> set (c_query cl)"
proof -
  from assms(3) have a1: "avoids P r1"
    unfolding get_primary_def by (rule primary_loop_avoids [OF avoids_start])
  have nl: "P \<notin> set (keys (unresolved c vers))"
    using assms(4) by (simp add: keys_unresolved)
  have st1: "(if pyval_truthy (arg_primary args) then get_primary srcs args c [] (start w)
          else (Inr ([], []), start w)) = (Inr (vers, asked), r1)"
    using assms(1,3) by simp
  have "avoids P r"
  proof (cases "pyval_truthy (arg_secondary args) \<and> unresolved c vers \<noteq> []")
    case True
    obtain o2 r2 where g2: "get_secondary sl args c vers asked (unresolved c vers) r1 = (o2, r2)"
      by (cases "get_secondary sl args c vers asked (unresolved c vers) r1")
    from get_secondary_avoids [OF a1 nl assms(4) g2] have a2: "avoids P r2" .
    have st2: "(if pyval_truthy (arg_secondary args) \<and>
             (if pyval_truthy (arg_trust_primary args) then unresolved c vers else c) \<noteq> []
          then get_secondary sl args c vers asked
                 (if pyval_truthy (arg_trust_primary args) then unresolved c vers else c) r1
          else (Inr (vers, if pyval_truthy (arg_trust_primary args) then unresolved c vers else c), r1))
         = (o2, r2)"
      using True assms(2) g2 by simp
    from get_vers_stages [OF assms(5) st1 st2] have "r = r2" by (rule conjunct1)
    with a2 show ?thesis by simp
  next
    case False
    have st2: "(if pyval_truthy (arg_secondary args) \<and>
             (if pyval_truthy (arg_trust_primary args) then unresolved c vers else c) \<noteq> []
          then get_secondary sl args c vers asked
                 (if pyval_truthy (arg_trust_primary args) then unresolved c vers else c) r1
          else (Inr (vers, if pyval_truthy (arg_trust_primary args) then unresolved c vers else c), r1))
         = (Inr (vers, unresolved c vers), r1)"
    proof -
      from False assms(2) have "\<not> (pyval_truthy (arg_secondary args) \<and>
             (if pyval_truthy (arg_trust_primary args) then unresolved c vers else c) \<noteq> [])"
        by simp
      then show ?thesis using assms(2) by (simp only: if_False if_True)
    qed
    from get_vers_stages [OF assms(5) st1 st2] have "r = r1" by (rule conjunct1)
    with a1 show ?thesis by simp
  qed
  then show ?thesis by (simp add: avoids_def)
qed

theorem trusted_primary_not_asked_again_witness:
  "pyval_truthy (arg_primary no_options) \<and> pyval_truthy (arg_trust_primary no_options) \<and>
   fst (get_primary sources no_options run_example_catalog [] (start run_example_world)) =
     Inr ([(''p'', release_only [1, 0])], [''arch'']) \<and>
   ''p'' \<in> set (keys [(''p'', release_only [1, 0])]) \<and>
   map (\<lambda>cl. (c_phase cl, c_source cl, c_query cl))
     (r_calls (snd (get_vers sources sources_list no_options run_example_catalog (start run_example_world)))) =
     [(Primary, ''arch'', [''p'']), (Secondary, ''github'', [''q''])] \<and>
   ''p'' \<notin> set (concat (map c_query (filter (\<lambda>cl. c_phase cl = Secondary)
     (r_calls (snd (get_vers sources sources_list no_options run_example_catalog
        (start run_example_world)))))))"
proof -
  let ?P = "get_primary sources no_options run_example_catalog [] (start run_example_world)"
  let ?G = "get_vers sources sources_list no_options run_example_catalog (start run_example_world)"
  have a1: "pyval_truthy (arg_primary no_options)" by (simp add: no_options_def)
  have a2: "pyval_truthy (arg_trust_primary no_options)" by (simp add: no_options_def)
  have f: "fst ?P = Inr ([(''p'', release_only [1, 0])], [''arch''])" by code_simp
  have p: "?P = (Inr ([(''p'', release_only [1, 0])], [''arch'']), snd ?P)" using f by (metis prod.collapse)
  have k: "''p'' \<in> set (keys [(''p'', release_only [1, 0])])" by (simp add: keys_def)
  have g: "?G = (fst ?G, snd ?G)" by simp
  have t: "map (\<lambda>cl. (c_phase cl, c_source cl, c_query cl)) (r_calls (snd ?G)) =
     [(Primary, ''arch'', [''p'']), (Secondary, ''github'', [''q''])]" by code_simp
  from trusted_primary_not_asked_again [OF a1 a2 p k g]
  have "\<forall>cl \<in> set (r_calls (snd ?G)). c_phase cl = Secondary \<longrightarrow> ''p'' \<notin> set (c_query cl)" .
  then have "''p'' \<notin> set (concat (map c_query (filter (\<lambda>cl. c_phase cl = Secondary) (r_calls (snd ?G)))))"
    by auto
  with a1 a2 f k t show ?thesis by blast
qed



end
